theory Spec2Isabelle
  imports Main "HOL-Library.Sublist"
begin

section \<open>JavaScript strings\<close>

text \<open>
  A JavaScript string is a sequence of UTF-16 code units. A code unit is modelled as a
  natural number, so that the check mark of the completion marker (U+2713) and the
  white space above U+00FF are what they are in the program. Literals of the source are
  written with \<open>str\<close>.
\<close>

type_synonym jsstring = "nat list"

definition str :: "string \<Rightarrow> jsstring" where
  "str s = map of_char s"

text \<open>\<open>s.startsWith(p)\<close> is \<^const>\<open>prefix\<close>. \<open>s.indexOf(p, start)\<close>: the least
  position from \<open>start\<close> on at which \<open>p\<close> occurs, \<open>None\<close> for \<open>-1\<close>.\<close>

fun find_at :: "jsstring \<Rightarrow> jsstring \<Rightarrow> nat \<Rightarrow> nat option" where
  "find_at p [] k = (if p = [] then Some k else None)"
| "find_at p (c # cs) k = (if prefix p (c # cs) then Some k else find_at p cs (Suc k))"

definition indexOf :: "jsstring \<Rightarrow> jsstring \<Rightarrow> nat \<Rightarrow> nat option" where
  "indexOf s p start = find_at p (drop start s) (min start (length s))"

definition js_includes :: "jsstring \<Rightarrow> jsstring \<Rightarrow> bool" where
  "js_includes s p = (indexOf s p 0 \<noteq> None)"

text \<open>\<open>s.substring(a, b)\<close> for \<open>a \<le> b\<close>.\<close>

definition substring :: "jsstring \<Rightarrow> nat \<Rightarrow> nat \<Rightarrow> jsstring" where
  "substring s a b = take (b - a) (drop a s)"

text \<open>The decimal digits of a number, as a template literal prints it.\<close>

fun decimal :: "nat \<Rightarrow> jsstring" where
  "decimal n = (if n < 10 then [48 + n] else decimal (n div 10) @ [48 + n mod 10])"

declare decimal.simps [simp del]

section \<open>Settings\<close>

record settings =
  endpoint :: jsstring
  apiKey :: jsstring
  model :: jsstring
  maxRetries :: int
  retryDelay :: int

section \<open>generateImageWithRetry\<close>

text \<open>
  What a \<open>throw\<close> carries: the error of \<open>validateSettings\<close>, an \<open>Error\<close> with its
  message, or \<open>undefined\<close> (the value of \<open>lastError\<close> when the loop body never ran).
\<close>

datatype thrown = SettingsError | Err jsstring | ThrownUndefined

text \<open>\<open>validateSettings\<close> throws when the endpoint, the key or the model is empty.\<close>

definition validateSettings :: "settings \<Rightarrow> bool" where
  "validateSettings s \<longleftrightarrow> endpoint s \<noteq> [] \<and> apiKey s \<noteq> [] \<and> model s \<noteq> []"

text \<open>
  Both \<open>generateImageOpenAI\<close> and \<open>generateImageGemini\<close> throw, for a response that is not
  \<open>ok\<close>, an error with the message \<open>API Error (status): body\<close>.
\<close>

definition api_error :: "nat \<Rightarrow> jsstring \<Rightarrow> jsstring" where
  "api_error status body = str ''API Error ('' @ decimal status @ str ''): '' @ body"

definition isRetryable :: "jsstring \<Rightarrow> bool" where
  "isRetryable message \<longleftrightarrow>
     js_includes message (str ''429'') \<or>
     js_includes message (str ''503'') \<or>
     js_includes message (str ''502'') \<or>
     js_includes message (str ''504'') \<or>
     js_includes message (str ''timeout'') \<or>
     js_includes message (str ''network'')"

text \<open>
  The provider is an oracle: the outcome of the call made in attempt \<open>k\<close>, \<open>Inl\<close> the message
  of the error thrown, \<open>Inr\<close> the data URL returned. A run records the outcome, the delays
  it waited (in the order waited) and the number of calls made.
\<close>

type_synonym provider = "nat \<Rightarrow> jsstring + jsstring"

record retry_run =
  outcome :: "thrown + jsstring"
  delays :: "int list"
  calls :: nat

function retry_loop ::
  "settings \<Rightarrow> provider \<Rightarrow> nat \<Rightarrow> thrown \<Rightarrow> int list \<Rightarrow> retry_run" where
  "retry_loop s gen attempt lastError ds =
     (if int attempt \<le> maxRetries s then
        (case gen attempt of
           Inr dataUrl \<Rightarrow> \<lparr>outcome = Inr dataUrl, delays = ds, calls = Suc attempt\<rparr>
         | Inl message \<Rightarrow>
             if \<not> isRetryable message \<or> int attempt = maxRetries s
             then \<lparr>outcome = Inl (Err message), delays = ds, calls = Suc attempt\<rparr>
             else retry_loop s gen (Suc attempt) (Err message)
                    (ds @ [retryDelay s * 2 ^ attempt]))
      else \<lparr>outcome = Inl lastError, delays = ds, calls = attempt\<rparr>)"
  by pat_completeness auto
termination
  by (relation "measure (\<lambda>(s, gen, attempt, lastError, ds). nat (maxRetries s + 1 - int attempt))")
     auto

declare retry_loop.simps [simp del]

definition generateImageWithRetry :: "settings \<Rightarrow> provider \<Rightarrow> retry_run" where
  "generateImageWithRetry s gen =
     (if \<not> validateSettings s then \<lparr>outcome = Inl SettingsError, delays = [], calls = 0\<rparr>
      else retry_loop s gen 0 ThrownUndefined [])"


section \<open>Regular expressions\<close>

text \<open>
  The three regular expressions of the program are sequences of the atoms below: a
  literal, a quantified character class, the capture \<open>(['"])\<close> of a quote as group 1,
  the lazy capture \<open>([\s\S]*?)\<close> as group 2, and the back reference \<open>\1\<close>. All three
  carry the flag \<open>i\<close> and none the flag \<open>u\<close>: the unit is the UTF-16 code unit, and a
  letter of a literal matches its two ASCII cases only (the canonicalisation of
  ECMAScript keeps a code unit from 128 on apart from every ASCII letter).
\<close>

abbreviation cu :: "char \<Rightarrow> nat" where
  "cu \<equiv> of_char"

datatype cclass = Space | NotGt | AnyUnit | NotQuote

text \<open>\<open>\s\<close> is the white space and the line terminators of ECMAScript.\<close>

definition is_space :: "nat \<Rightarrow> bool" where
  "is_space c \<longleftrightarrow>
     (9 \<le> c \<and> c \<le> 13) \<or> c = 32 \<or> c = 160 \<or> c = 5760 \<or> (8192 \<le> c \<and> c \<le> 8202) \<or>
     c = 8232 \<or> c = 8233 \<or> c = 8239 \<or> c = 8287 \<or> c = 12288 \<or> c = 65279"

fun in_class :: "cclass \<Rightarrow> nat \<Rightarrow> bool" where
  "in_class Space c = is_space c"
| "in_class NotGt c = (c \<noteq> cu CHR ''>'')"
| "in_class AnyUnit c = True"
| "in_class NotQuote c = (c \<noteq> cu CHR 0x27 \<and> c \<noteq> cu CHR 0x22)"

definition upper :: "nat \<Rightarrow> nat" where
  "upper c = (if 97 \<le> c \<and> c \<le> 122 then c - 32 else c)"

definition same_nocase :: "nat \<Rightarrow> nat \<Rightarrow> bool" where
  "same_nocase a b \<longleftrightarrow> upper a = upper b"

text \<open>\<open>lit_rest l s\<close>: what follows the literal \<open>l\<close> at the head of \<open>s\<close>.\<close>

fun lit_rest :: "jsstring \<Rightarrow> jsstring \<Rightarrow> jsstring option" where
  "lit_rest [] s = Some s"
| "lit_rest (a # l) [] = None"
| "lit_rest (a # l) (c # s) = (if same_nocase a c then lit_rest l s else None)"

datatype atom =
    Lit jsstring
  | Star cclass
  | Plus cclass
  | Quote
  | LazyGroup
  | Back

record captures =
  group1 :: "nat option"
  group2 :: jsstring

definition no_captures :: captures where
  "no_captures = \<lparr>group1 = None, group2 = []\<rparr>"

text \<open>
  The backtracking matcher: \<open>rmatch r s c\<close> matches the atoms \<open>r\<close> at the head of \<open>s\<close>
  and returns what follows the match, with the captures. A greedy quantifier tries one
  more unit first and the rest of the pattern when that fails; the lazy group tries the
  rest of the pattern first.
\<close>

fun rmatch :: "atom list \<Rightarrow> jsstring \<Rightarrow> captures \<Rightarrow> (jsstring \<times> captures) option" where
  "rmatch [] s c = Some (s, c)"
| "rmatch (Lit l # r) s c =
     (case lit_rest l s of None \<Rightarrow> None | Some s' \<Rightarrow> rmatch r s' c)"
| "rmatch (Star k # r) [] c = rmatch r [] c"
| "rmatch (Star k # r) (x # xs) c =
     (if in_class k x then
        (case rmatch (Star k # r) xs c of
           Some m \<Rightarrow> Some m
         | None \<Rightarrow> rmatch r (x # xs) c)
      else rmatch r (x # xs) c)"
| "rmatch (Plus k # r) [] c = None"
| "rmatch (Plus k # r) (x # xs) c =
     (if in_class k x then rmatch (Star k # r) xs c else None)"
| "rmatch (Quote # r) [] c = None"
| "rmatch (Quote # r) (x # xs) c =
     (if x = cu CHR 0x27 \<or> x = cu CHR 0x22 then rmatch r xs (c\<lparr>group1 := Some x\<rparr>) else None)"
| "rmatch (LazyGroup # r) [] c = rmatch r [] c"
| "rmatch (LazyGroup # r) (x # xs) c =
     (case rmatch r (x # xs) c of
        Some m \<Rightarrow> Some m
      | None \<Rightarrow> rmatch (LazyGroup # r) xs (c\<lparr>group2 := group2 c @ [x]\<rparr>))"
| "rmatch (Back # r) [] c = (case group1 c of None \<Rightarrow> rmatch r [] c | Some q \<Rightarrow> None)"
| "rmatch (Back # r) (x # xs) c =
     (case group1 c of
        None \<Rightarrow> rmatch r (x # xs) c
      | Some q \<Rightarrow> if same_nocase q x then rmatch r xs c else None)"

text \<open>
  A match found: where it starts, the text matched, what follows it, the captures.
  \<open>rsearch r s i\<close> tries the positions of \<open>s\<close> from left to right (\<open>i\<close> is the index of
  the head of \<open>s\<close> in the whole text).
\<close>

record rmatched =
  m_index :: nat
  m_text :: jsstring
  m_after :: jsstring
  m_caps :: captures

fun rsearch :: "atom list \<Rightarrow> jsstring \<Rightarrow> nat \<Rightarrow> rmatched option" where
  "rsearch r [] i =
     (case rmatch r [] no_captures of
        None \<Rightarrow> None
      | Some (rest, c) \<Rightarrow> Some \<lparr>m_index = i, m_text = [], m_after = rest, m_caps = c\<rparr>)"
| "rsearch r (x # xs) i =
     (case rmatch r (x # xs) no_captures of
        None \<Rightarrow> rsearch r xs (Suc i)
      | Some (rest, c) \<Rightarrow>
          Some \<lparr>m_index = i, m_text = take (length (x # xs) - length rest) (x # xs),
                m_after = rest, m_caps = c\<rparr>)"

text \<open>\<open>regex.exec(text)\<close> of a global expression whose \<open>lastIndex\<close> is \<open>lastIndex\<close>;
  \<open>text.match(regex)\<close> of an expression that is not global.\<close>

definition exec :: "atom list \<Rightarrow> jsstring \<Rightarrow> nat \<Rightarrow> rmatched option" where
  "exec r text lastIndex =
     (if length text < lastIndex then None else rsearch r (drop lastIndex text) lastIndex)"

definition match_first :: "atom list \<Rightarrow> jsstring \<Rightarrow> rmatched option" where
  "match_first r text = rsearch r text 0"

text \<open>\<open>/<img\s+[^>]*data-iig-instruction\s*=\s*(['"])([\s\S]*?)\1[^>]*>/gi\<close>\<close>

definition imgTagRegex :: "atom list" where
  "imgTagRegex =
     [Lit (str ''<img''), Plus Space, Star NotGt, Lit (str ''data-iig-instruction''),
      Star Space, Lit (str ''=''), Star Space, Quote, LazyGroup, Back, Star NotGt,
      Lit (str ''>'')]"

text \<open>\<open>/src\s*=\s*(['"])([\s\S]*?)\1/i\<close>, which reads the resource slot of a tag.\<close>

definition srcRegex :: "atom list" where
  "srcRegex = [Lit (str ''src''), Star Space, Lit (str ''=''), Star Space, Quote, LazyGroup, Back]"

text \<open>\<open>/src\s*=\s*(['"])[^'"]*\1/i\<close>, which the rewrite of a tag replaces.\<close>

definition srcSlotRegex :: "atom list" where
  "srcSlotRegex =
     [Lit (str ''src''), Star Space, Lit (str ''=''), Star Space, Quote, Star NotQuote, Back]"

section \<open>Replacement\<close>

text \<open>
  \<open>GetSubstitution\<close> of ECMAScript, for a match with the captures \<open>caps\<close> and no named
  group: in the replacement, \<open>$$\<close> is a dollar, \<open>$&\<close> the text matched, \<open>$`\<close> the text
  before it, \<open>$'\<close> the text after it, \<open>$n\<close> and \<open>$nn\<close> capture \<open>n\<close> when there is one;
  every other unit stands for itself.
\<close>

definition is_digit :: "nat \<Rightarrow> bool" where
  "is_digit c \<longleftrightarrow> 48 \<le> c \<and> c \<le> 57"

fun get_substitution ::
  "jsstring \<Rightarrow> jsstring \<Rightarrow> jsstring \<Rightarrow> jsstring list \<Rightarrow> jsstring \<Rightarrow> jsstring" where
  "get_substitution matched pre post caps [] = []"
| "get_substitution matched pre post caps [c] = [c]"
| "get_substitution matched pre post caps (c # d # t) =
     (if c \<noteq> cu CHR ''$'' then c # get_substitution matched pre post caps (d # t)
      else if d = cu CHR ''$'' then d # get_substitution matched pre post caps t
      else if d = cu CHR 0x60 then pre @ get_substitution matched pre post caps t
      else if d = cu CHR ''&'' then matched @ get_substitution matched pre post caps t
      else if d = cu CHR 0x27 then post @ get_substitution matched pre post caps t
      else if is_digit d then
        (case t of
           e # t' \<Rightarrow>
             if is_digit e \<and> 10 * (d - 48) + (e - 48) \<le> length caps then
               (if 10 * (d - 48) + (e - 48) = 0
                then c # d # e # get_substitution matched pre post caps t'
                else caps ! (10 * (d - 48) + (e - 48) - 1)
                       @ get_substitution matched pre post caps t')
             else if 1 \<le> d - 48 \<and> d - 48 \<le> length caps
             then caps ! (d - 48 - 1) @ get_substitution matched pre post caps (e # t')
             else c # d # get_substitution matched pre post caps (e # t')
         | [] \<Rightarrow>
             if 1 \<le> d - 48 \<and> d - 48 \<le> length caps then caps ! (d - 48 - 1)
             else [c, d])
      else c # get_substitution matched pre post caps (d # t))"

text \<open>\<open>s.replace(p, r)\<close> for a string \<open>p\<close>: the first occurrence only.\<close>

definition replace_string :: "jsstring \<Rightarrow> jsstring \<Rightarrow> jsstring \<Rightarrow> jsstring" where
  "replace_string s p r =
     (case indexOf s p 0 of
        None \<Rightarrow> s
      | Some i \<Rightarrow>
          take i s @ get_substitution p (take i s) (drop (i + length p) s) [] r
            @ drop (i + length p) s)"

text \<open>\<open>s.replace(regex, r)\<close> for an expression that is not global.\<close>

definition capture_list :: "captures \<Rightarrow> jsstring list" where
  "capture_list c = [case group1 c of None \<Rightarrow> [] | Some q \<Rightarrow> [q]]"

definition replace_regex :: "jsstring \<Rightarrow> atom list \<Rightarrow> jsstring \<Rightarrow> jsstring" where
  "replace_regex s r rep =
     (case match_first r s of
        None \<Rightarrow> s
      | Some m \<Rightarrow>
          take (m_index m) s
            @ get_substitution (m_text m) (take (m_index m) s) (m_after m)
                (capture_list (m_caps m)) rep
            @ m_after m)"

text \<open>\<open>s.replace(/p/g, r)\<close> for a literal \<open>p\<close> and a replacement without a dollar.\<close>

function replace_all :: "jsstring \<Rightarrow> jsstring \<Rightarrow> jsstring \<Rightarrow> jsstring" where
  "replace_all p r [] = []"
| "replace_all p r (c # cs) =
     (if p \<noteq> [] \<and> prefix p (c # cs)
      then r @ replace_all p r (drop (length p) (c # cs))
      else c # replace_all p r cs)"
  by pat_completeness auto
termination
  by (relation "measure (\<lambda>(p, r, s). length s)") (auto simp: neq_Nil_conv)

section \<open>JSON values\<close>

text \<open>
  What \<open>JSON.parse\<close> returns, and \<open>undefined\<close> for a property that is not there. A number
  carries whether it is other than zero, which is all the program asks of it, and its
  lexeme.
\<close>

datatype jsval =
    JUndefined
  | JNull
  | JBool bool
  | JNum bool jsstring
  | JStr jsstring
  | JArr "jsval list"
  | JObj "(jsstring \<times> jsval) list"

fun truthy :: "jsval \<Rightarrow> bool" where
  "truthy JUndefined = False"
| "truthy JNull = False"
| "truthy (JBool b) = b"
| "truthy (JNum nonzero lexeme) = nonzero"
| "truthy (JStr s) = (s \<noteq> [])"
| "truthy (JArr vs) = True"
| "truthy (JObj kvs) = True"

text \<open>\<open>a || b\<close>\<close>

definition js_or :: "jsval \<Rightarrow> jsval \<Rightarrow> jsval" where
  "js_or a b = (if truthy a then a else b)"

text \<open>
  \<open>data.key\<close> for a value that is neither \<open>null\<close> nor \<open>undefined\<close>, and a key no prototype
  holds (the seven keys the parser reads are such): the last member of an object with
  that key, \<open>undefined\<close> otherwise.
\<close>

fun get_prop :: "jsval \<Rightarrow> jsstring \<Rightarrow> jsval" where
  "get_prop (JObj kvs) k = (case map_of (rev kvs) k of None \<Rightarrow> JUndefined | Some v \<Rightarrow> v)"
| "get_prop v k = JUndefined"

subsection \<open>A model of JSON.parse\<close>

text \<open>
  \<open>JSON.parse\<close> is the engine's, and the parser takes it as a parameter. The model
  below follows the JSON grammar (white space, the literals, numbers, strings with their
  escapes, arrays, objects) and runs the examples. The fuel counts the values, members
  and elements still to read, each of which takes a code unit at least. A number is
  the double nearest to its decimal value, ties to even: the value \<open>m * 10^e\<close> is other
  than zero as a double exactly when it exceeds \<open>2^-1075\<close>, half the least subnormal.
\<close>

definition is_ws :: "nat \<Rightarrow> bool" where
  "is_ws c \<longleftrightarrow> c = 32 \<or> c = 9 \<or> c = 10 \<or> c = 13"

definition skip_ws :: "jsstring \<Rightarrow> jsstring" where
  "skip_ws s = dropWhile is_ws s"

definition hex_val :: "nat \<Rightarrow> nat option" where
  "hex_val c =
     (if 48 \<le> c \<and> c \<le> 57 then Some (c - 48)
      else if 97 \<le> c \<and> c \<le> 102 then Some (c - 87)
      else if 65 \<le> c \<and> c \<le> 70 then Some (c - 55)
      else None)"

definition unescape :: "nat \<Rightarrow> nat option" where
  "unescape e =
     (if e = cu CHR 0x22 \<or> e = cu CHR 0x5C \<or> e = cu CHR ''/'' then Some e
      else if e = cu CHR ''b'' then Some 8
      else if e = cu CHR ''f'' then Some 12
      else if e = cu CHR ''n'' then Some 10
      else if e = cu CHR ''r'' then Some 13
      else if e = cu CHR ''t'' then Some 9
      else None)"

definition push_unit :: "nat \<Rightarrow> (jsstring \<times> jsstring) option \<Rightarrow> (jsstring \<times> jsstring) option" where
  "push_unit c r = (case r of None \<Rightarrow> None | Some (x, rest) \<Rightarrow> Some (c # x, rest))"

text \<open>A string, after its opening quote: its value and what follows the closing quote.\<close>

fun json_string :: "jsstring \<Rightarrow> (jsstring \<times> jsstring) option" where
  "json_string [] = None"
| "json_string (c # cs) =
     (if c = cu CHR 0x22 then Some ([], cs)
      else if c = cu CHR 0x5C then
        (case cs of
           [] \<Rightarrow> None
         | e # t \<Rightarrow>
             if e = cu CHR ''u'' then
               (case t of
                  h1 # h2 # h3 # h4 # t' \<Rightarrow>
                    (case (hex_val h1, hex_val h2, hex_val h3, hex_val h4) of
                       (Some a, Some b, Some c', Some d) \<Rightarrow>
                         push_unit (((a * 16 + b) * 16 + c') * 16 + d) (json_string t')
                     | _ \<Rightarrow> None)
                | _ \<Rightarrow> None)
             else (case unescape e of None \<Rightarrow> None | Some x \<Rightarrow> push_unit x (json_string t)))
      else if c < 32 then None
      else push_unit c (json_string cs))"

definition digits_value :: "jsstring \<Rightarrow> int" where
  "digits_value ds = foldl (\<lambda>a d. 10 * a + (int d - 48)) 0 ds"

definition rounds_to_nonzero :: "int \<Rightarrow> int \<Rightarrow> bool" where
  "rounds_to_nonzero m e \<longleftrightarrow>
     (if 0 \<le> e then 0 < m else 10 ^ nat (- e) < m * 2 ^ 1075)"

definition json_number :: "jsstring \<Rightarrow> (jsval \<times> jsstring) option" where
  "json_number s =
     (let s1 = (if prefix (str ''-'') s then tl s else s);
          ip = (if prefix (str ''0'') s1 then str ''0'' else takeWhile is_digit s1);
          s2 = drop (length ip) s1;
          fp = (if prefix (str ''.'') s2 then takeWhile is_digit (tl s2) else []);
          s3 = (if prefix (str ''.'') s2 then drop (length fp) (tl s2) else s2);
          has_exp = (prefix (str ''e'') s3 \<or> prefix (str ''E'') s3);
          signed = (has_exp \<and> (prefix (str ''+'') (tl s3) \<or> prefix (str ''-'') (tl s3)));
          s4 = (if signed then tl (tl s3) else tl s3);
          ep = takeWhile is_digit s4;
          rest = (if has_exp then drop (length ep) s4 else s3);
          exponent = (if \<not> has_exp then 0
                      else if prefix (str ''-'') (tl s3) then - digits_value ep
                      else digits_value ep)
      in if ip = [] \<or> (prefix (str ''.'') s2 \<and> fp = []) \<or> (has_exp \<and> ep = []) then None
         else Some (JNum (rounds_to_nonzero (digits_value (ip @ fp)) (exponent - int (length fp)))
                      (take (length s - length rest) s), rest))"

definition expect :: "nat \<Rightarrow> jsstring \<Rightarrow> jsstring option" where
  "expect c s = (case skip_ws s of [] \<Rightarrow> None | x # xs \<Rightarrow> if x = c then Some xs else None)"

fun json_value :: "nat \<Rightarrow> jsstring \<Rightarrow> (jsval \<times> jsstring) option"
  and json_members :: "nat \<Rightarrow> jsstring \<Rightarrow> (jsstring \<times> jsval) list \<Rightarrow> (jsval \<times> jsstring) option"
  and json_elements :: "nat \<Rightarrow> jsstring \<Rightarrow> jsval list \<Rightarrow> (jsval \<times> jsstring) option" where
  "json_value 0 s = None"
| "json_value (Suc n) s =
     (case skip_ws s of
        [] \<Rightarrow> None
      | c # cs \<Rightarrow>
          if c = cu CHR ''{'' then
            (case expect (cu CHR ''}'') cs of Some r \<Rightarrow> Some (JObj [], r) | None \<Rightarrow> json_members n cs [])
          else if c = cu CHR ''['' then
            (case expect (cu CHR '']'') cs of Some r \<Rightarrow> Some (JArr [], r) | None \<Rightarrow> json_elements n cs [])
          else if c = cu CHR 0x22 then
            (case json_string cs of None \<Rightarrow> None | Some (x, r) \<Rightarrow> Some (JStr x, r))
          else if prefix (str ''true'') (c # cs) then Some (JBool True, drop 4 (c # cs))
          else if prefix (str ''false'') (c # cs) then Some (JBool False, drop 5 (c # cs))
          else if prefix (str ''null'') (c # cs) then Some (JNull, drop 4 (c # cs))
          else json_number (c # cs))"
| "json_members 0 s acc = None"
| "json_members (Suc n) s acc =
     (case expect (cu CHR 0x22) s of
        None \<Rightarrow> None
      | Some s1 \<Rightarrow>
          (case json_string s1 of
             None \<Rightarrow> None
           | Some (k, s2) \<Rightarrow>
               (case expect (cu CHR '':'') s2 of
                  None \<Rightarrow> None
                | Some s3 \<Rightarrow>
                    (case json_value n s3 of
                       None \<Rightarrow> None
                     | Some (v, s4) \<Rightarrow>
                         (case expect (cu CHR '','') s4 of
                            Some s5 \<Rightarrow> json_members n s5 (acc @ [(k, v)])
                          | None \<Rightarrow>
                              (case expect (cu CHR ''}'') s4 of
                                 Some s5 \<Rightarrow> Some (JObj (acc @ [(k, v)]), s5)
                               | None \<Rightarrow> None))))))"
| "json_elements 0 s acc = None"
| "json_elements (Suc n) s acc =
     (case json_value n s of
        None \<Rightarrow> None
      | Some (v, s1) \<Rightarrow>
          (case expect (cu CHR '','') s1 of
             Some s2 \<Rightarrow> json_elements n s2 (acc @ [v])
           | None \<Rightarrow>
               (case expect (cu CHR '']'') s1 of
                  Some s2 \<Rightarrow> Some (JArr (acc @ [v]), s2)
                | None \<Rightarrow> None)))"

definition JSON_parse :: "jsstring \<Rightarrow> jsval option" where
  "JSON_parse s =
     (case json_value (Suc (length s)) s of
        None \<Rightarrow> None
      | Some (v, rest) \<Rightarrow> if skip_ws rest = [] then Some v else None)"

section \<open>parseImageTags\<close>

record tag =
  fullMatch :: jsstring
  index :: nat
  style :: jsval
  prompt :: jsval
  aspectRatio :: jsval
  imageSize :: jsval
  quality :: jsval
  isNewFormat :: bool
  existingSrc :: "jsstring option"

record parse_options =
  checkExistence :: bool
  forceAll :: bool

text \<open>
  The options of the call in \<open>processMessageTags\<close>: \<open>{ checkExistence: true }\<close>.
\<close>

definition normal_mode :: parse_options where
  "normal_mode = \<lparr>checkExistence = True, forceAll = False\<rparr>"

text \<open>The options of the call in \<open>regenerateMessageImages\<close>: \<open>{ forceAll: true }\<close>.\<close>

definition regenerate_mode :: parse_options where
  "regenerate_mode = \<lparr>checkExistence = False, forceAll = True\<rparr>"

text \<open>A probe that finds no file at any path.\<close>

definition no_file :: "jsstring \<Rightarrow> bool" where
  "no_file path = False"

text \<open>
  The body of both \<open>try\<close> blocks after \<open>JSON.parse\<close>: reading \<open>data.style\<close> of \<open>null\<close> throws
  a \<open>TypeError\<close>, which the \<open>catch\<close> swallows (\<open>None\<close>); otherwise the tag is pushed. (The
  log line after the \<open>push\<close> can throw too, for a prompt that is no string; the tag is
  pushed by then.)
\<close>

definition make_tag :: "jsval \<Rightarrow> jsstring \<Rightarrow> nat \<Rightarrow> bool \<Rightarrow> jsstring option \<Rightarrow> tag option" where
  "make_tag data full i new src =
     (if data = JNull \<or> data = JUndefined then None
      else Some \<lparr>fullMatch = full, index = i,
                 style = js_or (get_prop data (str ''style'')) (JStr []),
                 prompt = js_or (get_prop data (str ''prompt'')) (JStr []),
                 aspectRatio = js_or (js_or (get_prop data (str ''aspect_ratio''))
                                 (get_prop data (str ''aspectRatio''))) JNull,
                 imageSize = js_or (js_or (get_prop data (str ''image_size''))
                               (get_prop data (str ''imageSize''))) JNull,
                 quality = js_or (get_prop data (str ''quality'')) JNull,
                 isNewFormat = new, existingSrc = src\<rparr>)"

subsection \<open>The attribute grammar\<close>

definition srcValue_of :: "jsstring \<Rightarrow> jsstring" where
  "srcValue_of fullImgTag =
     (case match_first srcRegex fullImgTag of None \<Rightarrow> [] | Some m \<Rightarrow> group2 (m_caps m))"

definition hasMarker :: "jsstring \<Rightarrow> bool" where
  "hasMarker srcValue \<longleftrightarrow>
     js_includes srcValue (str ''[IMG:GEN]'') \<or> js_includes srcValue (str ''[IMG:'')"

definition hasErrorImage :: "jsstring \<Rightarrow> bool" where
  "hasErrorImage srcValue \<longleftrightarrow> js_includes srcValue (str ''error.svg'')"

definition hasPath :: "jsstring \<Rightarrow> bool" where
  "hasPath srcValue \<longleftrightarrow> srcValue \<noteq> [] \<and> prefix (str ''/'') srcValue \<and> 5 < length srcValue"

text \<open>
  Whether the tag goes on to \<open>JSON.parse\<close>; \<open>False\<close> is each \<open>continue\<close> of the loop.
  \<open>probe\<close> is \<open>checkFileExists\<close>: whether a \<open>HEAD\<close> request for the path answers \<open>ok\<close>.
\<close>

definition needsGeneration :: "parse_options \<Rightarrow> (jsstring \<Rightarrow> bool) \<Rightarrow> jsstring \<Rightarrow> bool" where
  "needsGeneration opts probe srcValue =
     (if hasErrorImage srcValue \<and> \<not> forceAll opts then False
      else if forceAll opts then True
      else if hasMarker srcValue \<or> srcValue = [] then True
      else if hasPath srcValue \<and> checkExistence opts then \<not> probe srcValue
      else False)"

definition normalize_instruction :: "jsstring \<Rightarrow> jsstring" where
  "normalize_instruction instructionJson =
     replace_all (str ''&amp;'') (str ''&'')
       (replace_all (str ''&apos;'') [cu CHR 0x27]
          (replace_all (str ''&quot;'') [cu CHR 0x22]
             (replace_all [cu CHR 0x27] [cu CHR 0x22] instructionJson)))"

text \<open>One turn of the first loop. \<open>parse\<close> is \<open>JSON.parse\<close>, \<open>None\<close> when it throws.\<close>

definition img_tag ::
  "(jsstring \<Rightarrow> jsval option) \<Rightarrow> parse_options \<Rightarrow> (jsstring \<Rightarrow> bool) \<Rightarrow> rmatched \<Rightarrow> tag option" where
  "img_tag parse opts probe m =
     (let fullImgTag = m_text m;
          instructionJson = group2 (m_caps m);
          srcValue = srcValue_of fullImgTag
      in if \<not> needsGeneration opts probe srcValue then None
         else (case parse (normalize_instruction instructionJson) of
                 None \<Rightarrow> None
               | Some data \<Rightarrow>
                   make_tag data fullImgTag (m_index m) True
                     (if hasPath srcValue then Some srcValue else None)))"

lemma lit_rest_length: "lit_rest l s = Some s' \<Longrightarrow> length s = length l + length s'"
  by (induction l s rule: lit_rest.induct) (auto split: if_splits)

lemma rmatch_suffix: "rmatch r s c = Some (rest, c') \<Longrightarrow> length rest \<le> length s"
proof (induction r s c arbitrary: rest c' rule: rmatch.induct)
  case (2 l r s c)
  from 2(2) obtain s' where l: "lit_rest l s = Some s'" and r: "rmatch r s' c = Some (rest, c')"
    by (auto split: option.splits)
  from 2(1) [OF l r] lit_rest_length [OF l] show ?case by simp
next
  case (4 k r x xs c)
  then show ?case by (fastforce split: if_splits option.splits)
next
  case (6 k r x xs c)
  then show ?case by (fastforce split: if_splits)
next
  case (8 r x xs c)
  then show ?case by (fastforce split: if_splits)
next
  case (10 r x xs c)
  then show ?case by (fastforce split: option.splits)
next
  case (12 r x xs c)
  then show ?case by (fastforce split: option.splits if_splits)
qed (auto split: option.splits)

lemma rsearch_bounds:
  "rsearch r s i = Some m \<Longrightarrow>
     i \<le> m_index m \<and> m_index m + length (m_text m) + length (m_after m) = i + length s"
proof (induction s arbitrary: i)
  case Nil
  then show ?case by (auto split: option.splits dest: rmatch_suffix)
next
  case (Cons x xs)
  show ?case
  proof (cases "rmatch r (x # xs) no_captures")
    case None
    then show ?thesis using Cons.IH [of "Suc i"] Cons.prems by auto
  next
    case (Some a)
    obtain rest c where a: "a = (rest, c)" by (cases a)
    have "length rest \<le> length (x # xs)" using Some a rmatch_suffix by blast
    then show ?thesis using Some a Cons.prems by auto
  qed
qed

lemma rsearch_Lit_nonempty:
  "rsearch (Lit (a # l) # r) s i = Some m \<Longrightarrow> m_text m \<noteq> []"
proof (induction s arbitrary: i)
  case Nil
  then show ?case by (auto split: option.splits)
next
  case (Cons x xs)
  show ?case
  proof (cases "rmatch (Lit (a # l) # r) (x # xs) no_captures")
    case None
    then show ?thesis using Cons.IH [of "Suc i"] Cons.prems by auto
  next
    case (Some b)
    obtain rest c where b: "b = (rest, c)" by (cases b)
    from Some b obtain s' where s': "lit_rest (a # l) (x # xs) = Some s'"
      and r: "rmatch r s' no_captures = Some (rest, c)"
      by (auto split: option.splits)
    have "length rest \<le> length s'" using r rmatch_suffix by blast
    moreover have "length (x # xs) = length (a # l) + length s'"
      using s' by (rule lit_rest_length)
    ultimately have "length rest < length (x # xs)" by simp
    then show ?thesis using Some b Cons.prems by auto
  qed
qed

lemma exec_imgTagRegex_advances:
  assumes "exec imgTagRegex text lastIndex = Some m"
  shows "lastIndex < m_index m + length (m_text m)"
    and "m_index m + length (m_text m) \<le> length text"
proof -
  from assms have le: "lastIndex \<le> length text"
    and s: "rsearch imgTagRegex (drop lastIndex text) lastIndex = Some m"
    by (auto simp: exec_def split: if_splits)
  from rsearch_bounds [OF s] le
  have b: "lastIndex \<le> m_index m"
    "m_index m + length (m_text m) + length (m_after m) = length text" by auto
  have "m_text m \<noteq> []"
    using s unfolding imgTagRegex_def str_def by (simp add: rsearch_Lit_nonempty)
  then have "0 < length (m_text m)" by simp
  with b show "lastIndex < m_index m + length (m_text m)"
    and "m_index m + length (m_text m) \<le> length text" by linarith+
qed

text \<open>The first loop: \<open>exec\<close> until it returns \<open>null\<close>, the tags in the order pushed.\<close>

function new_format_tags ::
  "(jsstring \<Rightarrow> jsval option) \<Rightarrow> parse_options \<Rightarrow> (jsstring \<Rightarrow> bool) \<Rightarrow> jsstring \<Rightarrow> nat \<Rightarrow> tag list" where
  "new_format_tags parse opts probe text lastIndex =
     (case exec imgTagRegex text lastIndex of
        None \<Rightarrow> []
      | Some m \<Rightarrow>
          (case img_tag parse opts probe m of None \<Rightarrow> [] | Some t \<Rightarrow> [t])
            @ new_format_tags parse opts probe text (m_index m + length (m_text m)))"
  by pat_completeness auto
termination
proof (relation "measure (\<lambda>(parse, opts, probe, text, lastIndex). length text - lastIndex)")
  show "wf (measure (\<lambda>(parse, opts, probe, text, lastIndex). length text - lastIndex))"
    by simp
next
  fix parse :: "jsstring \<Rightarrow> jsval option" and opts :: parse_options
    and probe :: "jsstring \<Rightarrow> bool" and tx :: jsstring and lastIndex :: nat and m :: rmatched
  assume "exec imgTagRegex tx lastIndex = Some m"
  from exec_imgTagRegex_advances [OF this]
  show "((parse, opts, probe, tx, m_index m + length (m_text m)),
         (parse, opts, probe, tx, lastIndex))
        \<in> measure (\<lambda>(parse, opts, probe, text, lastIndex). length text - lastIndex)"
    by simp
qed

declare new_format_tags.simps [simp del]

subsection \<open>The legacy grammar\<close>

text \<open>
  The \<open>for\<close> loop that looks for the closing brace: \<open>cs\<close> is the text from index \<open>i\<close> on.
  It returns \<open>jsonEnd\<close>, \<open>None\<close> for \<open>-1\<close>.
\<close>

fun scan_json :: "jsstring \<Rightarrow> nat \<Rightarrow> int \<Rightarrow> bool \<Rightarrow> bool \<Rightarrow> nat option" where
  "scan_json [] i braceCount inString escapeNext = None"
| "scan_json (char # cs) i braceCount inString escapeNext =
     (if escapeNext then scan_json cs (Suc i) braceCount inString False
      else if char = cu CHR 0x5C \<and> inString then scan_json cs (Suc i) braceCount inString True
      else if char = cu CHR 0x22 then scan_json cs (Suc i) braceCount (\<not> inString) False
      else if \<not> inString then
        (if char = cu CHR ''{'' then scan_json cs (Suc i) (braceCount + 1) inString False
         else if char = cu CHR ''}'' then
           (if braceCount - 1 = 0 then Some (Suc i)
            else scan_json cs (Suc i) (braceCount - 1) inString False)
         else scan_json cs (Suc i) braceCount inString False)
      else scan_json cs (Suc i) braceCount inString False)"

definition marker :: jsstring where
  "marker = str ''[IMG:GEN:''"

definition legacy_tag ::
  "(jsstring \<Rightarrow> jsval option) \<Rightarrow> jsstring \<Rightarrow> nat \<Rightarrow> nat \<Rightarrow> nat \<Rightarrow> tag option" where
  "legacy_tag parse text markerIndex jsonStart jsonEnd =
     (let jsonStr = substring text jsonStart jsonEnd;
          tagOnly = substring text markerIndex (jsonEnd + 1);
          normalizedJson = replace_all [cu CHR 0x27] [cu CHR 0x22] jsonStr
      in case parse normalizedJson of
           None \<Rightarrow> None
         | Some data \<Rightarrow> make_tag data tagOnly markerIndex False None)"

lemma find_at_bounds:
  "find_at p s k = Some m \<Longrightarrow> k \<le> m \<and> m - k + length p \<le> length s \<and> prefix p (drop (m - k) s)"
proof (induction s arbitrary: k)
  case Nil
  then show ?case by (auto split: if_splits)
next
  case (Cons c cs)
  show ?case
  proof (cases "prefix p (c # cs)")
    case True
    then show ?thesis using Cons.prems by (auto dest: prefix_length_le)
  next
    case False
    then have "find_at p cs (Suc k) = Some m" using Cons.prems by simp
    from Cons.IH [OF this] have a: "Suc k \<le> m" and b: "m - Suc k + length p \<le> length cs"
      and c: "prefix p (drop (m - Suc k) cs)" by auto
    from a have "m - k = Suc (m - Suc k)" by simp
    with a b c show ?thesis by simp
  qed
qed

lemma indexOf_bounds:
  assumes "indexOf s p start = Some m" and "p \<noteq> []"
  shows "start \<le> m" and "m + length p \<le> length s" and "prefix p (drop m s)"
proof -
  have le: "start \<le> length s"
  proof (rule ccontr)
    assume "\<not> start \<le> length s"
    then have "drop start s = []" by simp
    then show False using assms by (simp add: indexOf_def)
  qed
  then have f: "find_at p (drop start s) start = Some m"
    using assms(1) by (simp add: indexOf_def min_def)
  from find_at_bounds [OF f] le
  show "start \<le> m" and "m + length p \<le> length s" and "prefix p (drop m s)"
    by auto
qed

lemma scan_json_bounds:
  "scan_json cs i b q e = Some jsonEnd \<Longrightarrow> i < jsonEnd \<and> jsonEnd \<le> i + length cs"
proof (induction cs arbitrary: i b q e)
  case Nil
  then show ?case by simp
next
  case (Cons c cs)
  have step: "i < jsonEnd \<and> jsonEnd \<le> i + length (c # cs)"
    if "scan_json cs (Suc i) b' q' e' = Some jsonEnd" for b' q' e'
    using Cons.IH [OF that] by simp
  from Cons.prems show ?case
    unfolding scan_json.simps(2) by (auto split: if_splits dest: step)
qed

text \<open>The second loop, from \<open>searchStart\<close> on.\<close>

function legacy_tags :: "(jsstring \<Rightarrow> jsval option) \<Rightarrow> jsstring \<Rightarrow> nat \<Rightarrow> tag list" where
  "legacy_tags parse text searchStart =
     (case indexOf text marker searchStart of
        None \<Rightarrow> []
      | Some markerIndex \<Rightarrow>
          (let jsonStart = markerIndex + length marker in
           case scan_json (drop jsonStart text) jsonStart 0 False False of
             None \<Rightarrow> legacy_tags parse text jsonStart
           | Some jsonEnd \<Rightarrow>
               if \<not> prefix (str '']'') (drop jsonEnd text)
               then legacy_tags parse text jsonEnd
               else (case legacy_tag parse text markerIndex jsonStart jsonEnd of
                       None \<Rightarrow> []
                     | Some t \<Rightarrow> [t])
                    @ legacy_tags parse text (jsonEnd + 1)))"
  by pat_completeness auto
termination
proof (relation "measure (\<lambda>(parse, text, searchStart). length text - searchStart)")
  show "wf (measure (\<lambda>(parse, text, searchStart). length text - searchStart))" by simp
next
  fix parse :: "jsstring \<Rightarrow> jsval option" and tx :: jsstring
    and searchStart markerIndex jsonStart :: nat
  assume i: "indexOf tx marker searchStart = Some markerIndex"
    and j: "jsonStart = markerIndex + length marker"
  have ne: "marker \<noteq> []" and len: "0 < length marker" by (simp_all add: marker_def str_def)
  from indexOf_bounds(1,2) [OF i ne] j len
  have "searchStart < jsonStart" "jsonStart \<le> length tx" by linarith+
  then show "((parse, tx, jsonStart), (parse, tx, searchStart))
        \<in> measure (\<lambda>(parse, text, searchStart). length text - searchStart)"
    by simp
next
  fix parse :: "jsstring \<Rightarrow> jsval option" and tx :: jsstring
    and searchStart markerIndex jsonStart jsonEnd :: nat
  assume i: "indexOf tx marker searchStart = Some markerIndex"
    and j: "jsonStart = markerIndex + length marker"
    and e: "scan_json (drop jsonStart tx) jsonStart 0 False False = Some jsonEnd"
  have ne: "marker \<noteq> []" and len: "0 < length marker" by (simp_all add: marker_def str_def)
  from indexOf_bounds(1,2) [OF i ne] j len
  have a: "searchStart < jsonStart" "jsonStart \<le> length tx" by linarith+
  from scan_json_bounds [OF e] a
  have b: "searchStart < jsonEnd" "jsonEnd \<le> length tx" by simp_all
  then show "((parse, tx, jsonEnd), (parse, tx, searchStart))
        \<in> measure (\<lambda>(parse, text, searchStart). length text - searchStart)"
    by simp
  from b show "((parse, tx, jsonEnd + 1), (parse, tx, searchStart))
        \<in> measure (\<lambda>(parse, text, searchStart). length text - searchStart)"
    by simp
qed

declare legacy_tags.simps [simp del]

definition parseImageTags ::
  "(jsstring \<Rightarrow> jsval option) \<Rightarrow> (jsstring \<Rightarrow> bool) \<Rightarrow> parse_options \<Rightarrow> jsstring \<Rightarrow> tag list" where
  "parseImageTags parse probe opts text =
     new_format_tags parse opts probe text 0 @ legacy_tags parse text 0"

text \<open>The matches the first loop visits, in the order visited.\<close>

function img_matches :: "jsstring \<Rightarrow> nat \<Rightarrow> rmatched list" where
  "img_matches text lastIndex =
     (case exec imgTagRegex text lastIndex of
        None \<Rightarrow> []
      | Some m \<Rightarrow> m # img_matches text (m_index m + length (m_text m)))"
  by pat_completeness auto
termination
proof (relation "measure (\<lambda>(text, lastIndex). length text - lastIndex)")
  show "wf (measure (\<lambda>(text, lastIndex). length text - lastIndex))"
    by simp
next
  fix tx :: jsstring and lastIndex :: nat and m :: rmatched
  assume "exec imgTagRegex tx lastIndex = Some m"
  from exec_imgTagRegex_advances [OF this]
  show "((tx, m_index m + length (m_text m)), (tx, lastIndex))
        \<in> measure (\<lambda>(text, lastIndex). length text - lastIndex)"
    by simp
qed

declare img_matches.simps [simp del]

section \<open>The rewrite of the message\<close>

text \<open>
  What \<open>processTag\<close> does to \<open>message.mes\<close> when its job has settled: with the path of the
  saved image after a success, with the message of the error after a failure.
\<close>

definition ERROR_IMAGE_PATH :: jsstring where
  "ERROR_IMAGE_PATH = str ''/scripts/extensions/third-party/sillyimages/error.svg''"

text \<open>The check mark of the completion marker is the code unit U+2713.\<close>

definition rewrite_done :: "jsstring \<Rightarrow> tag \<Rightarrow> jsstring \<Rightarrow> jsstring" where
  "rewrite_done mes tg imagePath =
     (if isNewFormat tg then
        (let updatedTag = replace_regex (fullMatch tg) srcSlotRegex
                            (str ''src='' @ [cu CHR 0x22] @ imagePath @ [cu CHR 0x22])
         in replace_string mes (fullMatch tg) updatedTag)
      else
        (let completionMarker = str ''[IMG:'' @ [10003] @ str '':'' @ imagePath @ str '']''
         in replace_string mes (fullMatch tg) completionMarker))"

definition rewrite_error :: "jsstring \<Rightarrow> tag \<Rightarrow> jsstring \<Rightarrow> jsstring" where
  "rewrite_error mes tg message =
     (if isNewFormat tg then
        (let errorTag = replace_regex (fullMatch tg) srcSlotRegex
                          (str ''src='' @ [cu CHR 0x22] @ ERROR_IMAGE_PATH @ [cu CHR 0x22])
         in replace_string mes (fullMatch tg) errorTag)
      else
        (let errorMarker = str ''[IMG:ERROR:'' @ substring message 0 50 @ str '']''
         in replace_string mes (fullMatch tg) errorMarker))"

text \<open>What the rewrite after a success puts in the place of the text of the tag.\<close>

definition done_text :: "tag \<Rightarrow> jsstring \<Rightarrow> jsstring" where
  "done_text tg imagePath =
     (if isNewFormat tg
      then replace_regex (fullMatch tg) srcSlotRegex
             (str ''src='' @ [cu CHR 0x22] @ imagePath @ [cu CHR 0x22])
      else str ''[IMG:'' @ [10003] @ str '':'' @ imagePath @ str '']'')"

section \<open>processMessageTags\<close>

text \<open>
  The state the orchestration reads and writes: the setting \<open>enabled\<close>, the set
  \<open>processingMessages\<close>, the chat (\<open>context.chat[messageId]\<close>, \<open>None\<close> for a message that
  is not there), and whether the two queries of the document find the element of the
  message and its \<open>.mes_text\<close>. \<open>events\<close> is a record of what has happened, in order; the
  program does not read it.
\<close>

record chat_message =
  msg_mes :: jsstring
  msg_is_user :: bool

datatype event =
    Started nat
  | Settled nat nat
  | Rejected nat nat
  | Unmarked nat
  | SavedChat nat

record world =
  enabled :: bool
  processingMessages :: "nat set"
  chat :: "nat \<Rightarrow> chat_message option"
  messageElement :: "nat \<Rightarrow> bool"
  mesTextEl :: "nat \<Rightarrow> bool"
  events :: "event list"

text \<open>
  An \<open>async\<close> function runs without interruption from one \<open>await\<close> to the next.
  \<open>processMessageTags\<close> has three such parts. The first runs from the call to
  \<open>await parseImageTags(\<dots>)\<close>: it returns at once when the extension is disabled, when
  the message is marked as being processed, and when there is no message or it is the
  user's. It changes nothing.
\<close>

definition admitted :: "world \<Rightarrow> nat \<Rightarrow> bool" where
  "admitted w messageId \<longleftrightarrow>
     enabled w \<and> messageId \<notin> processingMessages w \<and>
     (case chat w messageId of None \<Rightarrow> False | Some message \<Rightarrow> \<not> msg_is_user message)"

text \<open>
  The second part runs when \<open>parseImageTags\<close> has answered, up to \<open>await Promise.all(\<dots>)\<close>:
  it returns when there are no tags, marks the message, returns when one of the two
  elements is missing, and starts the jobs. The boolean tells whether the jobs were
  started.
\<close>

definition mark_and_start :: "world \<Rightarrow> nat \<Rightarrow> tag list \<Rightarrow> world \<times> bool" where
  "mark_and_start w messageId tags =
     (if tags = [] then (w, False)
      else let w1 = w\<lparr>processingMessages := insert messageId (processingMessages w)\<rparr>
           in if \<not> messageElement w1 messageId then (w1, False)
              else if \<not> mesTextEl w1 messageId then (w1, False)
              else (w1\<lparr>events := events w1 @ [Started messageId]\<rparr>, True))"

text \<open>
  What \<open>generateImageWithRetry\<close> and \<open>saveImageToFile\<close> come to for a tag: the path of the
  saved image, an error with its message, or a thrown value without a message
  (\<open>throw lastError\<close> throws \<open>undefined\<close> when \<open>maxRetries\<close> is negative).
\<close>

datatype outcome = Generated jsstring | Raised jsstring | RaisedNothing

text \<open>
  How the promise of \<open>processTag\<close> ends. Before its \<open>try\<close>, for a tag of the attribute
  grammar, it calls \<open>tag.prompt.substring\<close>, which throws when the prompt is not a string;
  its \<open>catch\<close> reads \<open>error.message\<close>, which throws when the value caught is \<open>undefined\<close>.
  In both cases the promise is rejected; otherwise it is fulfilled, after the rewrite of
  the message.
\<close>

datatype job_end = Done jsstring | Failed jsstring | Rejects

fun is_string :: "jsval \<Rightarrow> bool" where
  "is_string (JStr s) = True"
| "is_string v = False"

definition processTag :: "tag \<Rightarrow> outcome \<Rightarrow> job_end" where
  "processTag tg out =
     (if isNewFormat tg \<and> \<not> is_string (prompt tg) then Rejects
      else case out of
             Generated imagePath \<Rightarrow> Done imagePath
           | Raised message \<Rightarrow> Failed message
           | RaisedNothing \<Rightarrow> Rejects)"

fun settle :: "jsstring \<Rightarrow> tag \<times> job_end \<Rightarrow> jsstring" where
  "settle m (tg, Done imagePath) = rewrite_done m tg imagePath"
| "settle m (tg, Failed message) = rewrite_error m tg message"
| "settle m (tg, Rejects) = m"

text \<open>
  The jobs, numbered in the order in which they end, and what each adds to the record:
  \<open>Promise.all\<close> is rejected with the first promise that is rejected, and fulfilled when
  all are fulfilled. The \<open>finally\<close> removes the mark then, and \<open>saveChat\<close> is called only
  when nothing was thrown; the jobs that have not ended by then go on.
\<close>

fun job_event :: "nat \<Rightarrow> nat \<times> job_end \<Rightarrow> event" where
  "job_event messageId (k, Rejects) = Rejected messageId k"
| "job_event messageId (k, e) = Settled messageId k"

definition join_events :: "nat \<Rightarrow> job_end list \<Rightarrow> event list" where
  "join_events messageId ends =
     (let numbered = zip [0..<length ends] ends;
          fulfilled = takeWhile (\<lambda>(k, e). e \<noteq> Rejects) numbered;
          others = dropWhile (\<lambda>(k, e). e \<noteq> Rejects) numbered
      in case others of
           [] \<Rightarrow> map (job_event messageId) fulfilled @ [Unmarked messageId, SavedChat messageId]
         | r # later \<Rightarrow>
             map (job_event messageId) fulfilled @ [job_event messageId r, Unmarked messageId]
               @ map (job_event messageId) later)"

definition finish :: "world \<Rightarrow> nat \<Rightarrow> (tag \<times> job_end) list \<Rightarrow> world" where
  "finish w messageId jobs =
     w\<lparr>chat := (chat w)(messageId :=
           map_option (\<lambda>message. message\<lparr>msg_mes := foldl settle (msg_mes message) jobs\<rparr>)
             (chat w messageId)),
       processingMessages := processingMessages w - {messageId},
       events := events w @ join_events messageId (map snd jobs)\<rparr>"

text \<open>
  A call that nothing interrupts, with the jobs ending in the order of the tags. \<open>parse\<close>
  is \<open>parseImageTags\<close> with the options of the call, \<open>generate\<close> what the generation comes
  to for each tag.
\<close>

definition processMessageTags ::
  "(jsstring \<Rightarrow> tag list) \<Rightarrow> (tag \<Rightarrow> outcome) \<Rightarrow> world \<Rightarrow> nat \<Rightarrow> world" where
  "processMessageTags parse generate w messageId =
     (if \<not> admitted w messageId then w
      else case chat w messageId of
             None \<Rightarrow> w
           | Some message \<Rightarrow>
               (let tags = parse (msg_mes message);
                    (w1, started) = mark_and_start w messageId tags
                in if started
                   then finish w1 messageId (map (\<lambda>tg. (tg, processTag tg (generate tg))) tags)
                   else w1))"

text \<open>
  Two calls for one message, the second made while the first waits for
  \<open>parseImageTags\<close>: the first part of the first call, the first part of the second, then
  the second part of each.
\<close>

definition overlapping_calls :: "(jsstring \<Rightarrow> tag list) \<Rightarrow> world \<Rightarrow> nat \<Rightarrow> world" where
  "overlapping_calls parse w messageId =
     (let first_admitted = admitted w messageId;
          second_admitted = admitted w messageId;
          tags = (case chat w messageId of None \<Rightarrow> [] | Some message \<Rightarrow> parse (msg_mes message));
          w1 = (if first_admitted then fst (mark_and_start w messageId tags) else w);
          w2 = (if second_admitted then fst (mark_and_start w1 messageId tags) else w1)
      in w2)"

section \<open>Balanced text\<close>

text \<open>
  What the claims call a JSON object with braces inside string literals, in the words of
  the specification: a text in braces made of string literals (between double quotes,
  where a backslash escapes the unit after it), of nested texts in braces, and of other
  units. Every JSON object is such a text; \<open>render\<close> writes it out.
\<close>

datatype strunit = Plain nat | Escaped nat

datatype piece = Unit nat | StrLit "strunit list" | Braces "piece list"

fun render_unit :: "strunit \<Rightarrow> jsstring" where
  "render_unit (Plain c) = [c]"
| "render_unit (Escaped e) = [cu CHR 0x5C, e]"

fun render :: "piece \<Rightarrow> jsstring" where
  "render (Unit c) = [c]"
| "render (StrLit us) = cu CHR 0x22 # concat (map render_unit us) @ [cu CHR 0x22]"
| "render (Braces ps) = cu CHR ''{'' # concat (map render ps) @ [cu CHR ''}'']"

fun wf_unit :: "strunit \<Rightarrow> bool" where
  "wf_unit (Plain c) \<longleftrightarrow> c \<noteq> cu CHR 0x22 \<and> c \<noteq> cu CHR 0x5C"
| "wf_unit (Escaped e) \<longleftrightarrow> True"

fun wf_piece :: "piece \<Rightarrow> bool" where
  "wf_piece (Unit c) \<longleftrightarrow> c \<noteq> cu CHR 0x22 \<and> c \<noteq> cu CHR ''{'' \<and> c \<noteq> cu CHR ''}''"
| "wf_piece (StrLit us) \<longleftrightarrow> list_all wf_unit us"
| "wf_piece (Braces ps) \<longleftrightarrow> list_all wf_piece ps"


text \<open>
  What it takes for the second loop to push a tag: the marker found at the index of the tag,
  the scan from behind the marker ending at some \<open>jsonEnd\<close>, a closing bracket right
  there, the text of the tag running from the marker to that bracket, and a JSON text
  that \<open>JSON.parse\<close> accepts.
\<close>

definition legacy_span :: "(jsstring \<Rightarrow> jsval option) \<Rightarrow> jsstring \<Rightarrow> tag \<Rightarrow> bool" where
  "legacy_span parse tx t \<longleftrightarrow>
     \<not> isNewFormat t \<and>
     indexOf tx marker (index t) = Some (index t) \<and>
     (\<exists>jsonEnd. scan_json (drop (index t + length marker) tx) (index t + length marker) 0 False False
                   = Some jsonEnd \<and>
        prefix (str '']'') (drop jsonEnd tx) \<and>
        fullMatch t = substring tx (index t) (jsonEnd + 1) \<and>
        parse (replace_all [cu CHR 0x27] [cu CHR 0x22]
                 (substring tx (index t + length marker) jsonEnd)) \<noteq> None)"

section \<open>Shapes of text\<close>

text \<open>
  A quote is one of the two units that \<open>(['"])\<close> accepts. A text mentions a name when
  the name occurs in it in some case of its letters, which is how an expression with the
  flag \<open>i\<close> finds it.
\<close>

definition is_quote :: "nat \<Rightarrow> bool" where
  "is_quote q \<longleftrightarrow> q = cu CHR 0x27 \<or> q = cu CHR 0x22"

definition mentions :: "jsstring \<Rightarrow> jsstring \<Rightarrow> bool" where
  "mentions s name \<longleftrightarrow> sublist (map upper name) (map upper s)"

definition name_upper :: jsstring where
  "name_upper = map upper (str ''data-iig-instruction'')"

definition src_upper :: jsstring where
  "src_upper = map upper (str ''src'')"

text \<open>
  An image tag with the instruction attribute first and the resource slot second, each
  between quotes of its own: \<open><img data-iig-instruction=q json q src=qs path qs>\<close>.
\<close>

definition img_with_src :: "nat \<Rightarrow> jsstring \<Rightarrow> nat \<Rightarrow> jsstring \<Rightarrow> jsstring" where
  "img_with_src q json qs path =
     str ''<img data-iig-instruction='' @ [q] @ json @ [q] @
     str '' src='' @ [qs] @ path @ [qs] @ str ''>''"

section \<open>Example messages\<close>

text \<open>Scenario C: a tag whose resource slot holds the path of a file that is not there.\<close>

definition scenario_C :: jsstring where
  \<open>scenario_C =
     str ''<img data-iig-instruction='{"prompt":"a castle"}' src="/images/missing.png">''\<close>

definition scenario_C_match :: rmatched where
  \<open>scenario_C_match =
     \<lparr>m_index = 0, m_text = scenario_C, m_after = [],
      m_caps = \<lparr>group1 = Some (cu CHR 0x27), group2 = str ''{"prompt":"a castle"}''\<rparr>\<rparr>\<close>



text \<open>
  Legacy tags: one with a brace and brackets inside a string literal; one behind a tag
  whose text has an odd number of double quotes; one that writes its literals between
  single quotes.
\<close>

definition bracket_object :: "piece list" where
  "bracket_object =
     [StrLit (map Plain (str ''prompt'')), Unit (cu CHR '':''),
      StrLit (map Plain (str ''a} strange [bracket] test''))]"

definition bracket_message :: jsstring where
  \<open>bracket_message = str ''see [IMG:GEN:{"prompt":"a} strange [bracket] test"}] here''\<close>

definition brace_object :: "piece list" where
  "brace_object =
     [StrLit (map Plain (str ''prompt'')), Unit (cu CHR '':''),
      StrLit (map Plain (str ''a} b''))]"

definition shadowed_message :: jsstring where
  \<open>shadowed_message = str ''[IMG:GEN:{"prompt":"5" tall"}] and [IMG:GEN:{"prompt":"a} b"}] x''\<close>

definition single_quoted_message :: jsstring where
  \<open>single_quoted_message =
     str ''[IMG:GEN:{'' @ [cu CHR 0x27] @ str ''prompt'' @ [cu CHR 0x27] @ str '':'' @
     [cu CHR 0x27] @ str ''a} b'' @ [cu CHR 0x27] @ str ''}] x''\<close>

text \<open>
  A pending tag, its instruction and the tag record the parser makes of it; the same tag with
  its resource slot between single quotes, twice in one message, and without a resource
  slot; the path of a saved image and the message of a failure.
\<close>

definition castle_json :: jsstring where
  \<open>castle_json = str ''{"prompt":"a castle"}''\<close>

definition castle_tag :: "jsstring \<Rightarrow> nat \<Rightarrow> tag" where
  "castle_tag full i =
     \<lparr>fullMatch = full, index = i, style = JStr [], prompt = JStr (str ''a castle''),
      aspectRatio = JNull, imageSize = JNull, quality = JNull, isNewFormat = True,
      existingSrc = None\<rparr>"

definition pending_message :: jsstring where
  \<open>pending_message = str ''<img data-iig-instruction='{"prompt":"a castle"}' src="[IMG:GEN]">''\<close>


definition two_castles :: jsstring where
  "two_castles = pending_message @ str '' and '' @ pending_message"

definition no_slot_message :: jsstring where
  \<open>no_slot_message = str ''<img data-iig-instruction='{"prompt":"a castle"}'>''\<close>

definition castle_png :: jsstring where
  "castle_png = str ''/user/images/castle.png''"

definition boom :: jsstring where
  "boom = str ''API Error (500): boom''"

text \<open>
  Worlds for the orchestration: message 0 with a given text, rendered or not; the parser
  of the call with a probe that finds no file; a generation that always succeeds; a tag
  whose prompt is a number, alone and before a pending tag; the tag of Scenario C; a
  message with a legacy tag before a tag of the attribute grammar.
\<close>

definition parse_normal :: "jsstring \<Rightarrow> tag list" where
  "parse_normal = parseImageTags JSON_parse no_file normal_mode"

definition generate_castle :: "tag \<Rightarrow> outcome" where
  "generate_castle tg = Generated castle_png"

definition chat_of :: "jsstring \<Rightarrow> nat \<Rightarrow> chat_message option" where
  "chat_of m i = (if i = 0 then Some \<lparr>msg_mes = m, msg_is_user = False\<rparr> else None)"

definition everywhere :: "nat \<Rightarrow> bool" where
  "everywhere i = True"

definition nowhere :: "nat \<Rightarrow> bool" where
  "nowhere i = False"

definition rendered :: "jsstring \<Rightarrow> world" where
  "rendered m =
     \<lparr>enabled = True, processingMessages = {}, chat = chat_of m,
      messageElement = everywhere, mesTextEl = everywhere, events = []\<rparr>"

definition number_prompt :: jsstring where
  \<open>number_prompt = str ''<img data-iig-instruction='{"prompt":123}' src="[IMG:GEN]">''\<close>

definition number_tag :: tag where
  "number_tag =
     \<lparr>fullMatch = number_prompt, index = 0, style = JStr [], prompt = JNum True (str ''123''),
      aspectRatio = JNull, imageSize = JNull, quality = JNull, isNewFormat = True,
      existingSrc = None\<rparr>"

definition missing_tag :: tag where
  "missing_tag = (castle_tag scenario_C 0)\<lparr>existingSrc := Some (str ''/images/missing.png'')\<rparr>"

definition number_and_castle :: jsstring where
  "number_and_castle = number_prompt @ str '' and '' @ pending_message"

definition unrendered :: "jsstring \<Rightarrow> world" where
  "unrendered m = (rendered m)\<lparr>messageElement := nowhere\<rparr>"



text \<open>A tag whose instruction is no JSON text, before a pending tag.\<close>

definition malformed_message :: jsstring where
  \<open>malformed_message =
     str ''<img data-iig-instruction='{oops' src="[IMG:GEN]"> '' @ pending_message\<close>

section \<open>Facts about strings\<close>

lemma find_at_None_iff: "find_at p s k = None \<longleftrightarrow> \<not> sublist p s"
  by (induction s arbitrary: k) (auto simp: sublist_Cons_right)

lemma js_includes_sublist: "js_includes s p \<longleftrightarrow> sublist p s"
  by (simp add: js_includes_def indexOf_def find_at_None_iff)

lemma sublist_after_separator:
  assumes "a \<noteq> []" "last a \<notin> set p" "\<not> sublist p a"
  shows "sublist p (a @ b) \<longleftrightarrow> sublist p b"
proof
  assume "sublist p (a @ b)"
  then consider "sublist p a" | "sublist p b"
    | p1 p2 where "p = p1 @ p2" "suffix p1 a" "prefix p2 b"
    by (auto simp: sublist_append)
  then show "sublist p b"
  proof cases
    case 3
    show ?thesis
    proof (cases "p1 = []")
      case True
      then show ?thesis using 3 by (auto simp: prefix_def)
    next
      case False
      then have "last p1 = last a" using 3(2) by (auto simp: suffix_def)
      then have "last a \<in> set p" using False 3(1) by (metis last_in_set Un_iff set_append)
      then show ?thesis using assms by simp
    qed
  qed (use assms in auto)
next
  assume "sublist p b" then show "sublist p (a @ b)"
    by (metis sublist_append)
qed

section \<open>The retry loop\<close>

lemma decimal_400: "decimal 400 = str ''400''"
  by (simp add: decimal.simps str_def)

lemma decimal_503: "decimal 503 = str ''503''"
  by (simp add: decimal.simps str_def)

text \<open>The status line of a 400 holds none of the six fragments, and none can straddle
  the blank before the body: a 400 is retryable exactly when its body is.\<close>

lemma isRetryable_400: "isRetryable (api_error 400 body) = isRetryable body"
proof -
  let ?a = "str ''API Error (400): ''"
  have a: "api_error 400 body = ?a @ body"
    by (simp add: api_error_def decimal_400 str_def)
  have "sublist p (?a @ body) = sublist p body"
    if "p \<in> {str ''429'', str ''503'', str ''502'', str ''504'', str ''timeout'', str ''network''}"
    for p
    by (rule sublist_after_separator) (use that in \<open>auto simp: str_def sublist_code\<close>)
  then show ?thesis unfolding a isRetryable_def js_includes_sublist by simp
qed

lemma isRetryable_503: "isRetryable (api_error 503 body)"
proof -
  have "api_error 503 body = str ''API Error ('' @ str ''503'' @ (str ''): '' @ body)"
    by (simp add: api_error_def decimal_503)
  then show ?thesis unfolding isRetryable_def js_includes_sublist
    by (metis sublist_appendI)
qed

lemma retry_loop_shape:
  fixes s gen a e ds
  assumes "int a \<le> maxRetries s"
  defines "r \<equiv> retry_loop s gen a e ds"
  shows "a < calls r \<and>
         delays r = ds @ map (\<lambda>k. retryDelay s * 2 ^ k) [a..<calls r - 1] \<and>
         (\<forall>k. a \<le> k \<and> k < calls r - 1 \<longrightarrow>
              (\<exists>m. gen k = Inl m \<and> isRetryable m \<and> int k < maxRetries s)) \<and>
         (case gen (calls r - 1) of
            Inr u \<Rightarrow> outcome r = Inr u
          | Inl m \<Rightarrow> outcome r = Inl (Err m) \<and>
                     (\<not> isRetryable m \<or> int (calls r - 1) = maxRetries s))"
  using assms(1) unfolding r_def
proof (induction s gen a e ds rule: retry_loop.induct)
  case (1 s gen attempt lastError ds)
  show ?case
  proof (cases "gen attempt")
    case (Inr u)
    then show ?thesis using 1(2) by (auto simp add: retry_loop.simps)
  next
    case (Inl m)
    show ?thesis
    proof (cases "\<not> isRetryable m \<or> int attempt = maxRetries s")
      case True
      then show ?thesis using 1(2) Inl by (auto simp add: retry_loop.simps)
    next
      case False
      then have le: "int (Suc attempt) \<le> maxRetries s" using 1(2) by simp
      have eq: "retry_loop s gen attempt lastError ds =
                retry_loop s gen (Suc attempt) (Err m) (ds @ [retryDelay s * 2 ^ attempt])"
        using False 1(2) Inl by (subst retry_loop.simps) simp
      note IH = 1(1)[OF 1(2) Inl False le]
      let ?r = "retry_loop s gen (Suc attempt) (Err m) (ds @ [retryDelay s * 2 ^ attempt])"
      from IH have c: "Suc attempt < calls ?r" by simp
      have up: "[attempt..<calls ?r - 1] = attempt # [Suc attempt..<calls ?r - 1]"
        using c by (simp add: upt_conv_Cons)
      show ?thesis unfolding eq using IH c up False Inl 1(2)
        apply (intro conjI)
           apply simp
          apply simp
         apply (metis le_antisym not_less_eq_eq linorder_not_le order_le_less)
        apply simp
        done
    qed
  qed
qed

text \<open>
  Claim C4, as the code has it. With valid settings and a ceiling that is not
  negative, \<open>generateImageWithRetry\<close> calls the provider at least once; every call but the
  last failed with a message that holds one of the fragments \<open>429\<close>, \<open>503\<close>, \<open>502\<close>,
  \<open>504\<close>, \<open>timeout\<close>, \<open>network\<close> while the attempt number was below the ceiling, and was
  followed by a wait of \<open>retryDelay * 2^k\<close>; the last call succeeded, or failed with a
  message that holds none of them, or was attempt number \<open>maxRetries\<close>. Two 503
  responses and then a success, under a ceiling of 2, give the delays \<open>d\<close> and \<open>2d\<close>; a 400
  whose body holds none of the fragments is terminal after the first attempt.
\<close>

theorem generateImageWithRetry_schedule:
  fixes s :: settings and gen :: provider
  assumes "validateSettings s" and "0 \<le> maxRetries s"
  defines "r \<equiv> generateImageWithRetry s gen"
  shows "1 \<le> calls r \<and>
     delays r = map (\<lambda>k. retryDelay s * 2 ^ k) [0..<calls r - 1] \<and>
     (\<forall>k<calls r - 1. \<exists>m. gen k = Inl m \<and> isRetryable m \<and> int k < maxRetries s) \<and>
     (case gen (calls r - 1) of
        Inr u \<Rightarrow> outcome r = Inr u
      | Inl m \<Rightarrow> outcome r = Inl (Err m) \<and>
                 (\<not> isRetryable m \<or> int (calls r - 1) = maxRetries s)) \<and>
     (\<forall>b0 b1 u. maxRetries s = 2 \<and> gen 0 = Inl (api_error 503 b0) \<and>
         gen 1 = Inl (api_error 503 b1) \<and> gen 2 = Inr u \<longrightarrow>
         outcome r = Inr u \<and> calls r = 3 \<and> delays r = [retryDelay s, 2 * retryDelay s]) \<and>
     (\<forall>body. gen 0 = Inl (api_error 400 body) \<and> \<not> isRetryable body \<longrightarrow>
         outcome r = Inl (Err (api_error 400 body)) \<and> calls r = 1 \<and> delays r = [])"
proof -
  have r: "r = retry_loop s gen 0 ThrownUndefined []"
    using assms(1) by (simp add: r_def generateImageWithRetry_def)
  have shape: "0 < calls r \<and>
         delays r = [] @ map (\<lambda>k. retryDelay s * 2 ^ k) [0..<calls r - 1] \<and>
         (\<forall>k. 0 \<le> k \<and> k < calls r - 1 \<longrightarrow>
              (\<exists>m. gen k = Inl m \<and> isRetryable m \<and> int k < maxRetries s)) \<and>
         (case gen (calls r - 1) of
            Inr u \<Rightarrow> outcome r = Inr u
          | Inl m \<Rightarrow> outcome r = Inl (Err m) \<and>
                     (\<not> isRetryable m \<or> int (calls r - 1) = maxRetries s))"
    unfolding r using assms(2) by (intro retry_loop_shape) simp
  have two: "outcome r = Inr u \<and> calls r = 3 \<and> delays r = [retryDelay s, 2 * retryDelay s]"
    if "maxRetries s = 2" "gen 0 = Inl (api_error 503 b0)"
       "gen 1 = Inl (api_error 503 b1)" "gen 2 = Inr u" for b0 b1 u
    unfolding r using that
    by (simp add: retry_loop.simps [of s gen 0] retry_loop.simps [of s gen 1]
        retry_loop.simps [of s gen 2] retry_loop.simps [of s gen "Suc 0"]
        retry_loop.simps [of s gen "Suc (Suc 0)"] isRetryable_503 numeral_2_eq_2)
  have bad: "outcome r = Inl (Err (api_error 400 body)) \<and> calls r = 1 \<and> delays r = []"
    if "gen 0 = Inl (api_error 400 body)" "\<not> isRetryable body" for body
    unfolding r using that assms(2)
    by (simp add: retry_loop.simps [of s gen 0] isRetryable_400)
  have c1: "1 \<le> calls r" using shape by simp
  have c2: "delays r = map (\<lambda>k. retryDelay s * 2 ^ k) [0..<calls r - 1]"
    using shape by simp
  have c3: "\<forall>k<calls r - 1. \<exists>m. gen k = Inl m \<and> isRetryable m \<and> int k < maxRetries s"
    using shape by simp
  have c4: "case gen (calls r - 1) of
        Inr u \<Rightarrow> outcome r = Inr u
      | Inl m \<Rightarrow> outcome r = Inl (Err m) \<and>
                 (\<not> isRetryable m \<or> int (calls r - 1) = maxRetries s)"
    using shape by blast
  have c5: "\<forall>b0 b1 u. maxRetries s = 2 \<and> gen 0 = Inl (api_error 503 b0) \<and>
         gen 1 = Inl (api_error 503 b1) \<and> gen 2 = Inr u \<longrightarrow>
         outcome r = Inr u \<and> calls r = 3 \<and> delays r = [retryDelay s, 2 * retryDelay s]"
    using two by blast
  have c6: "\<forall>body. gen 0 = Inl (api_error 400 body) \<and> \<not> isRetryable body \<longrightarrow>
         outcome r = Inl (Err (api_error 400 body)) \<and> calls r = 1 \<and> delays r = []"
    using bad by blast
  show ?thesis by (intro conjI) (rule c1 c2 c3 c4 c5 c6)+
qed

theorem generateImageWithRetry_schedule_witness:
  "validateSettings \<lparr>endpoint = str ''https://api.example.com'', apiKey = str ''key'',
      model = str ''dall-e-3'', maxRetries = 2, retryDelay = 1000\<rparr> \<and>
   (0::int) \<le> 2 \<and>
   outcome (generateImageWithRetry
      \<lparr>endpoint = str ''https://api.example.com'', apiKey = str ''key'',
        model = str ''dall-e-3'', maxRetries = 2, retryDelay = 1000\<rparr>
      (\<lambda>k. if k < 2 then Inl (api_error 503 (str ''Service Unavailable''))
           else Inr (str ''data:image/png;base64,iVBORw0KGgo=''))) =
     Inr (str ''data:image/png;base64,iVBORw0KGgo='') \<and>
   delays (generateImageWithRetry
      \<lparr>endpoint = str ''https://api.example.com'', apiKey = str ''key'',
        model = str ''dall-e-3'', maxRetries = 2, retryDelay = 1000\<rparr>
      (\<lambda>k. if k < 2 then Inl (api_error 503 (str ''Service Unavailable''))
           else Inr (str ''data:image/png;base64,iVBORw0KGgo=''))) = [1000, 2000]"
proof -
  let ?s = "\<lparr>endpoint = str ''https://api.example.com'', apiKey = str ''key'',
        model = str ''dall-e-3'', maxRetries = 2, retryDelay = 1000\<rparr>"
  let ?gen = "\<lambda>k::nat. if k < 2 then Inl (api_error 503 (str ''Service Unavailable''))
           else Inr (str ''data:image/png;base64,iVBORw0KGgo='') :: jsstring + jsstring"
  have v: "validateSettings ?s" by (simp add: validateSettings_def str_def)
  have m: "0 \<le> maxRetries ?s" by simp
  note t = generateImageWithRetry_schedule [OF v m, of ?gen]
  note two = t [THEN conjunct2, THEN conjunct2, THEN conjunct2, THEN conjunct2,
      THEN conjunct1, rule_format, of "str ''Service Unavailable''"
      "str ''Service Unavailable''" "str ''data:image/png;base64,iVBORw0KGgo=''"]
  have "outcome (generateImageWithRetry ?s ?gen) = Inr (str ''data:image/png;base64,iVBORw0KGgo='')
      \<and> calls (generateImageWithRetry ?s ?gen) = 3
      \<and> delays (generateImageWithRetry ?s ?gen) = [retryDelay ?s, 2 * retryDelay ?s]"
    by (rule two) simp
  then show ?thesis using v by simp
qed

text \<open>A 400 is retried when its body holds one of the fragments.\<close>

theorem generateImageWithRetry_400_retried:
  "calls (generateImageWithRetry
      \<lparr>endpoint = str ''https://api.example.com'', apiKey = str ''key'',
        model = str ''dall-e-3'', maxRetries = 1, retryDelay = 1000\<rparr>
      (\<lambda>k. Inl (api_error 400 (str ''invalid value for timeout'')))) = 2 \<and>
   delays (generateImageWithRetry
      \<lparr>endpoint = str ''https://api.example.com'', apiKey = str ''key'',
        model = str ''dall-e-3'', maxRetries = 1, retryDelay = 1000\<rparr>
      (\<lambda>k. Inl (api_error 400 (str ''invalid value for timeout'')))) = [1000]"
proof -
  have "isRetryable (str ''invalid value for timeout'')"
    by (simp add: isRetryable_def js_includes_sublist str_def sublist_code)
  then show ?thesis
    by (simp add: generateImageWithRetry_def validateSettings_def retry_loop.simps [of _ _ 0]
        retry_loop.simps [of _ _ "Suc 0"] isRetryable_400) (simp add: str_def)
qed

section \<open>The scan of the legacy grammar\<close>

lemma scan_string_body:
  "list_all wf_unit us \<Longrightarrow>
   scan_json (concat (map render_unit us) @ cu CHR 0x22 # tail) i d True False =
   scan_json tail (i + length (concat (map render_unit us)) + 1) d False False"
proof (induction us arbitrary: i)
  case Nil
  then show ?case by simp
next
  case (Cons u us)
  then show ?case by (cases u) simp_all
qed

lemma scan_piece:
  "wf_piece p \<Longrightarrow> 1 \<le> d \<Longrightarrow>
   scan_json (render p @ tail) i d False False =
   scan_json tail (i + length (render p)) d False False"
proof (induction p arbitrary: i d tail)
  case (Unit c)
  then show ?case by simp
next
  case (StrLit us)
  then show ?case using scan_string_body [of us tail "Suc i" d] by simp
next
  case (Braces ps)
  have inner: "scan_json (concat (map render ps) @ t) k e False False =
               scan_json t (k + length (concat (map render ps))) e False False"
    if "1 \<le> e" for t k e
    using Braces that
  proof (induction ps arbitrary: k)
    case Nil
    then show ?case by simp
  next
    case (Cons q qs)
    have "scan_json (render q @ (concat (map render qs) @ t)) k e False False =
          scan_json (concat (map render qs) @ t) (k + length (render q)) e False False"
      using Cons.prems by (intro Cons.prems(1)) auto
    also have "\<dots> = scan_json t (k + length (render q) + length (concat (map render qs))) e False False"
      using Cons.prems by (intro Cons.IH) auto
    finally show ?case by (simp add: add.assoc)
  qed
  show ?case using Braces.prems(2) inner [of "d + 1" "cu CHR ''}'' # tail" "Suc i"]
    by simp
qed

lemma scan_pieces:
  "list_all wf_piece ps \<Longrightarrow> 1 \<le> d \<Longrightarrow>
   scan_json (concat (map render ps) @ tail) i d False False =
   scan_json tail (i + length (concat (map render ps))) d False False"
proof (induction ps arbitrary: i)
  case Nil
  then show ?case by simp
next
  case (Cons q qs)
  have "scan_json (render q @ (concat (map render qs) @ tail)) i d False False =
        scan_json (concat (map render qs) @ tail) (i + length (render q)) d False False"
    using Cons.prems by (intro scan_piece) auto
  also have "\<dots> = scan_json tail (i + length (render q) + length (concat (map render qs))) d False False"
    using Cons.prems by (intro Cons.IH) auto
  finally show ?case by (simp add: add.assoc)
qed

lemma scan_object:
  assumes "list_all wf_piece ps"
  shows "scan_json (render (Braces ps) @ rest) i 0 False False = Some (i + length (render (Braces ps)))"
  using scan_pieces [OF assms, of 1 "cu CHR ''}'' # rest" "Suc i"] by simp

lemma find_at_prefix: "prefix p s \<Longrightarrow> find_at p s k = Some k"
  by (cases s) auto

lemma indexOf_here: "indexOf (pre @ p @ s) p (length pre) = Some (length pre)"
  by (simp add: indexOf_def find_at_prefix)

lemma find_at_first:
  "n \<le> length s \<Longrightarrow> prefix p (drop n s) \<Longrightarrow> \<forall>i<n. \<not> prefix p (drop i s) \<Longrightarrow>
   find_at p s k = Some (k + n)"
proof (induction n arbitrary: s k)
  case 0
  then show ?case by (cases s) auto
next
  case (Suc n)
  then obtain c cs where s: "s = c # cs" by (cases s) auto
  have "\<not> prefix p (c # cs)" using Suc.prems(3) [rule_format, of 0] s by simp
  moreover have "\<forall>i<n. \<not> prefix p (drop i cs)"
    using Suc.prems(3) s by (metis Suc_less_eq drop_Suc_Cons)
  ultimately show ?case using Suc.IH [of cs "Suc k"] Suc.prems(1,2) s by simp
qed

lemma indexOf_first:
  "\<forall>i<length pre. \<not> prefix p (drop i (pre @ p @ s)) \<Longrightarrow>
   indexOf (pre @ p @ s) p 0 = Some (length pre)"
  using find_at_first [of "length pre" "pre @ p @ s" p 0] by (simp add: indexOf_def)

lemma legacy_tags_from_object:
  fixes parse :: "jsstring \<Rightarrow> jsval option" and pre rest :: jsstring and ps :: "piece list"
  assumes "list_all wf_piece ps"
  defines "j \<equiv> render (Braces ps)"
  defines "tx \<equiv> pre @ marker @ j @ rest"
  assumes i: "indexOf tx marker k = Some (length pre)"
  shows "legacy_tags parse tx k =
           (if prefix (str '']'') rest
            then (case parse (replace_all [cu CHR 0x27] [cu CHR 0x22] j) of
                    None \<Rightarrow> []
                  | Some data \<Rightarrow>
                      (case make_tag data (marker @ j @ str '']'') (length pre) False None of
                         None \<Rightarrow> [] | Some t \<Rightarrow> [t]))
                 @ legacy_tags parse tx (length pre + length marker + length j + 1)
            else legacy_tags parse tx (length pre + length marker + length j))"
proof -
  have d: "drop (length pre + length marker) tx = j @ rest" by (simp add: tx_def)
  have sc: "scan_json (j @ rest) (length pre + length marker) 0 False False =
            Some (length pre + length marker + length j)"
    unfolding j_def by (rule scan_object [OF assms(1)])
  have d2: "drop (length pre + length marker + length j) tx = rest" by (simp add: tx_def)
  have js: "substring tx (length pre + length marker) (length pre + length marker + length j) = j"
    by (simp add: substring_def d)
  have tg: "substring tx (length pre) (Suc (length pre + length marker + length j)) = marker @ j @ str '']''"
    if "prefix (str '']'') rest"
  proof -
    from that obtain r where "rest = str '']'' @ r" by (auto simp: prefix_def)
    then show ?thesis by (simp add: substring_def tx_def str_def)
  qed
  show ?thesis
  proof (cases "prefix (str '']'') rest")
    case True
    show ?thesis
      apply (subst legacy_tags.simps)
      apply (simp only: i option.case Let_def d sc d2)
      apply (simp add: True legacy_tag_def js tg [OF True] Let_def split: option.splits)
      done
  next
    case False
    show ?thesis
      apply (subst legacy_tags.simps)
      apply (simp only: i option.case Let_def d sc d2)
      apply (simp add: False)
      done
  qed
qed

lemma make_tag_fields:
  "make_tag data full i new src = Some t \<Longrightarrow>
     fullMatch t = full \<and> index t = i \<and> isNewFormat t = new \<and> existingSrc t = src"
  by (auto simp: make_tag_def split: if_splits)

lemma find_at_here: "find_at p s k = Some m \<Longrightarrow> find_at p (drop (m - k) s) m = Some m"
proof (induction s arbitrary: k)
  case Nil
  then show ?case by (auto split: if_splits)
next
  case (Cons c cs)
  show ?case
  proof (cases "prefix p (c # cs)")
    case True
    then show ?thesis using Cons.prems by auto
  next
    case False
    then have f: "find_at p cs (Suc k) = Some m" using Cons.prems by simp
    from find_at_bounds [OF f] have "m - k = Suc (m - Suc k)" by auto
    then show ?thesis using Cons.IH [OF f] by simp
  qed
qed

lemma indexOf_at_result:
  assumes "indexOf s p start = Some m" "p \<noteq> []"
  shows "indexOf s p m = Some m"
proof -
  have le: "start \<le> length s"
  proof (rule ccontr)
    assume "\<not> start \<le> length s"
    then show False using assms by (simp add: indexOf_def)
  qed
  then have f: "find_at p (drop start s) start = Some m"
    using assms(1) by (simp add: indexOf_def min_def)
  from indexOf_bounds [OF assms] have b: "start \<le> m" "m + length p \<le> length s" by auto
  from find_at_here [OF f] b le show ?thesis
    by (simp add: indexOf_def min_def)
qed

lemma legacy_tags_spans:
  "t \<in> set (legacy_tags parse tx k) \<Longrightarrow> k \<le> index t \<and> legacy_span parse tx t"
proof (induction parse tx k rule: legacy_tags.induct)
  case (1 parse tx searchStart)
  have ne: "marker \<noteq> []" by (simp add: marker_def str_def)
  show ?case
  proof (cases "indexOf tx marker searchStart")
    case None
    then show ?thesis using 1(4) by (subst (asm) legacy_tags.simps) simp
  next
    case (Some markerIndex)
    note mi = Some
    note b = indexOf_bounds [OF mi ne]
    let ?js = "markerIndex + length marker"
    show ?thesis
    proof (cases "scan_json (drop ?js tx) ?js 0 False False")
      case None
      then have "t \<in> set (legacy_tags parse tx ?js)"
        using 1(4) mi by (subst (asm) legacy_tags.simps) simp
      from 1(1) [OF mi refl None this] b show ?thesis by simp
    next
      case (Some jsonEnd)
      note je = Some
      note sb = scan_json_bounds [OF je]
      show ?thesis
      proof (cases "prefix (str '']'') (drop jsonEnd tx)")
        case False
        then have "t \<in> set (legacy_tags parse tx jsonEnd)"
          using 1(4) mi je by (subst (asm) legacy_tags.simps) simp
        from 1(2) [OF mi refl je False this] b sb show ?thesis by simp
      next
        case True
        from 1(4) mi je True
        consider "legacy_tag parse tx markerIndex ?js jsonEnd = Some t"
          | "t \<in> set (legacy_tags parse tx (jsonEnd + 1))"
          by (subst (asm) legacy_tags.simps) (auto split: option.splits)
        then show ?thesis
        proof cases
          case 1
          then obtain data where p: "parse (replace_all [cu CHR 0x27] [cu CHR 0x22]
                 (substring tx ?js jsonEnd)) = Some data"
            and m: "make_tag data (substring tx markerIndex (jsonEnd + 1)) markerIndex False None = Some t"
            by (auto simp: legacy_tag_def Let_def split: option.splits)
          from make_tag_fields [OF m] p je True b indexOf_at_result [OF mi ne]
          show ?thesis by (auto simp: legacy_span_def)
        next
          case 2
          have "\<not> \<not> prefix (str '']'') (drop jsonEnd tx)" using True by simp
          from 1(3) [OF mi refl je this 2] b sb show ?thesis by simp
        qed
      qed
    qed
  qed
qed


lemma legacy_tag_in_parseImageTags:
  fixes parse :: "jsstring \<Rightarrow> jsval option" and pre rest :: jsstring and ps :: "piece list"
  assumes "list_all wf_piece ps"
  defines "j \<equiv> render (Braces ps)"
  defines "tx \<equiv> pre @ marker @ j @ rest"
  assumes first: "\<forall>i<length pre. \<not> prefix marker (drop i tx)"
    and close: "prefix (str '']'') rest"
    and data: "parse (replace_all [cu CHR 0x27] [cu CHR 0x22] j) = Some data"
      "data \<noteq> JNull" "data \<noteq> JUndefined"
  shows "\<exists>t \<in> set (parseImageTags parse probe opts tx).
           \<not> isNewFormat t \<and> index t = length pre \<and> fullMatch t = marker @ j @ str '']'' \<and>
           existingSrc t = None \<and>
           prompt t = js_or (get_prop data (str ''prompt'')) (JStr [])"
proof -
  have i: "indexOf tx marker 0 = Some (length pre)"
    using first unfolding tx_def by (rule indexOf_first)
  obtain t where t: "make_tag data (marker @ j @ str '']'') (length pre) False None = Some t"
    using data(2,3) by (auto simp: make_tag_def)
  have "t \<in> set (legacy_tags parse tx 0)"
    using legacy_tags_from_object [OF assms(1), of pre rest 0 parse] i close data(1) t
    by (simp add: j_def tx_def)
  then have "t \<in> set (parseImageTags parse probe opts tx)"
    by (simp add: parseImageTags_def)
  moreover have "prompt t = js_or (get_prop data (str ''prompt'')) (JStr [])"
    using t data(2,3) by (auto simp: make_tag_def)
  ultimately show ?thesis using make_tag_fields [OF t] by blast
qed

lemma bracket_object_wf: "list_all wf_piece bracket_object"
  by (simp add: bracket_object_def str_def)

lemma bracket_object_render:
  \<open>render (Braces bracket_object) = str ''{"prompt":"a} strange [bracket] test"}''\<close>
  by (simp add: bracket_object_def str_def)

lemma bracket_message_shape:
  "str ''see '' @ marker @ render (Braces bracket_object) @ str ''] here'' = bracket_message"
  by (simp add: bracket_object_def bracket_message_def str_def marker_def)

lemma bracket_message_first:
  "\<forall>n<length (str ''see ''). \<not> prefix marker (drop n bracket_message)"
  by (simp add: bracket_message_def str_def marker_def less_Suc_eq)

lemma bracket_object_json:
  \<open>JSON_parse (replace_all [cu CHR 0x27] [cu CHR 0x22] (render (Braces bracket_object))) =
     Some (JObj [(str ''prompt'', JStr (str ''a} strange [bracket] test''))])\<close>
  unfolding bracket_object_render by code_simp

lemma brace_object_wf: "list_all wf_piece brace_object"
  by (simp add: brace_object_def str_def)

lemma shadowed_message_shape:
  \<open>str ''[IMG:GEN:{"prompt":"5" tall"}] and '' @ marker @ render (Braces brace_object) @ str ''] x'' =
     shadowed_message\<close>
  by (simp add: brace_object_def shadowed_message_def str_def marker_def)

lemma no_img_shadowed: "new_format_tags parse opts probe shadowed_message 0 = []"
  by (simp add: new_format_tags.simps shadowed_message_def exec_def imgTagRegex_def str_def
      no_captures_def same_nocase_def upper_def)

lemma scan_shadowed: "scan_json (drop 9 shadowed_message) 9 0 False False = Some 57"
  by (simp add: shadowed_message_def str_def)

lemma legacy_shadowed: "legacy_tags parse shadowed_message 0 = []"
  apply (subst legacy_tags.simps)
  apply (simp add: scan_shadowed marker_def shadowed_message_def str_def indexOf_def)
  apply (subst legacy_tags.simps)
  apply (simp add: marker_def str_def indexOf_def)
  done

text \<open>
  Claim C2. For a text in braces \<open>j\<close> as above, whatever its string literals hold
  (braces, brackets, escaped quotes), the scan that starts at \<open>j\<close> ends right behind
  its closing brace: the whole object is the JSON span. When the search of the loop, from a
  position \<open>k\<close>, finds the marker of the tag, the tag is accepted when a closing bracket
  follows the object at once, and the loop goes on behind the object without a tag
  otherwise. When no marker starts before the tag, \<open>parseImageTags\<close> returns the tag,
  with the whole object as its JSON, provided that \<open>JSON.parse\<close> accepts it. In any
  text, a tag the loop returns has its closing bracket right behind the span the scan
  found.
\<close>

theorem legacy_scan_extracts_whole_object:
  fixes parse :: "jsstring \<Rightarrow> jsval option" and probe :: "jsstring \<Rightarrow> bool"
    and pre rest tx0 :: jsstring and ps :: "piece list" and i k0 :: nat
  assumes "list_all wf_piece ps"
  defines "j \<equiv> render (Braces ps)"
  defines "tx \<equiv> pre @ marker @ j @ rest"
  shows "scan_json (j @ rest) i 0 False False = Some (i + length j) \<and>
         (\<forall>k. indexOf tx marker k = Some (length pre) \<longrightarrow>
            legacy_tags parse tx k =
              (if prefix (str '']'') rest
               then (case parse (replace_all [cu CHR 0x27] [cu CHR 0x22] j) of
                       None \<Rightarrow> []
                     | Some data \<Rightarrow>
                         (case make_tag data (marker @ j @ str '']'') (length pre) False None of
                            None \<Rightarrow> [] | Some t \<Rightarrow> [t]))
                    @ legacy_tags parse tx (length pre + length marker + length j + 1)
               else legacy_tags parse tx (length pre + length marker + length j))) \<and>
         (\<forall>data. (\<forall>n<length pre. \<not> prefix marker (drop n tx)) \<and> prefix (str '']'') rest \<and>
            parse (replace_all [cu CHR 0x27] [cu CHR 0x22] j) = Some data \<and>
            data \<noteq> JNull \<and> data \<noteq> JUndefined \<longrightarrow>
            (\<exists>t \<in> set (parseImageTags parse probe opts tx).
               \<not> isNewFormat t \<and> index t = length pre \<and>
               fullMatch t = marker @ j @ str '']'' \<and> existingSrc t = None \<and>
               prompt t = js_or (get_prop data (str ''prompt'')) (JStr []))) \<and>
         (\<forall>t \<in> set (legacy_tags parse tx0 k0). k0 \<le> index t \<and> legacy_span parse tx0 t)"
proof (intro conjI allI impI ballI)
  show "scan_json (j @ rest) i 0 False False = Some (i + length j)"
    unfolding j_def by (rule scan_object [OF assms(1)])
next
  fix k assume "indexOf tx marker k = Some (length pre)"
  then show "legacy_tags parse tx k =
              (if prefix (str '']'') rest
               then (case parse (replace_all [cu CHR 0x27] [cu CHR 0x22] j) of
                       None \<Rightarrow> []
                     | Some data \<Rightarrow>
                         (case make_tag data (marker @ j @ str '']'') (length pre) False None of
                            None \<Rightarrow> [] | Some t \<Rightarrow> [t]))
                    @ legacy_tags parse tx (length pre + length marker + length j + 1)
               else legacy_tags parse tx (length pre + length marker + length j))"
    unfolding j_def tx_def by (rule legacy_tags_from_object [OF assms(1)])
next
  fix data
  assume "(\<forall>n<length pre. \<not> prefix marker (drop n tx)) \<and> prefix (str '']'') rest \<and>
            parse (replace_all [cu CHR 0x27] [cu CHR 0x22] j) = Some data \<and>
            data \<noteq> JNull \<and> data \<noteq> JUndefined"
  then show "\<exists>t \<in> set (parseImageTags parse probe opts tx).
               \<not> isNewFormat t \<and> index t = length pre \<and>
               fullMatch t = marker @ j @ str '']'' \<and> existingSrc t = None \<and>
               prompt t = js_or (get_prop data (str ''prompt'')) (JStr [])"
    unfolding j_def tx_def using legacy_tag_in_parseImageTags [OF assms(1)] by blast
next
  fix t assume "t \<in> set (legacy_tags parse tx0 k0)"
  then show "k0 \<le> index t" "legacy_span parse tx0 t"
    using legacy_tags_spans by blast+
qed

theorem legacy_scan_extracts_whole_object_witness:
  \<open>list_all wf_piece bracket_object \<and>
   scan_json (drop 13 bracket_message) 13 0 False False = Some 51 \<and>
   (\<exists>t \<in> set (parseImageTags JSON_parse no_file normal_mode bracket_message).
      \<not> isNewFormat t \<and> index t = 4 \<and>
      fullMatch t = str ''[IMG:GEN:{"prompt":"a} strange [bracket] test"}]'' \<and>
      prompt t = JStr (str ''a} strange [bracket] test''))\<close>
proof -
  note c = legacy_scan_extracts_whole_object [OF bracket_object_wf, where parse = JSON_parse
      and pre = "str ''see ''" and rest = "str ''] here''" and probe = no_file
      and opts = normal_mode and i = 13]
  have d: "drop 13 bracket_message = render (Braces bracket_object) @ str ''] here''"
    by (simp add: bracket_message_def bracket_object_def str_def)
  have l: "13 + length (render (Braces bracket_object)) = 51"
    by (simp add: bracket_object_def str_def)
  have s: "scan_json (drop 13 bracket_message) 13 0 False False = Some 51"
    using c [THEN conjunct1] unfolding d l .
  have pf: "prefix (str '']'') (str ''] here'')" by (simp add: str_def)
  have q: "js_or (get_prop (JObj [(str ''prompt'', JStr (str ''a} strange [bracket] test''))])
             (str ''prompt'')) (JStr []) = JStr (str ''a} strange [bracket] test'')"
    by (simp add: js_or_def str_def)
  have mj: \<open>marker @ render (Braces bracket_object) @ str '']'' =
      str ''[IMG:GEN:{"prompt":"a} strange [bracket] test"}]''\<close>
    by (simp add: bracket_object_def str_def marker_def)
  have l4: "length (str ''see '') = 4" by (simp add: str_def)
  have "\<exists>t \<in> set (parseImageTags JSON_parse no_file normal_mode
                    (str ''see '' @ marker @ render (Braces bracket_object) @ str ''] here'')).
      \<not> isNewFormat t \<and> index t = length (str ''see '') \<and>
      fullMatch t = marker @ render (Braces bracket_object) @ str '']'' \<and> existingSrc t = None \<and>
      prompt t = js_or (get_prop (JObj [(str ''prompt'', JStr (str ''a} strange [bracket] test''))])
                   (str ''prompt'')) (JStr [])"
    using c [THEN conjunct2, THEN conjunct2, THEN conjunct1, rule_format,
             of "JObj [(str ''prompt'', JStr (str ''a} strange [bracket] test''))]"]
      bracket_message_first pf bracket_object_json
    unfolding bracket_message_shape by simp
  then show ?thesis
    unfolding bracket_message_shape q mj l4 using bracket_object_wf s by blast
qed

text \<open>
  A tag is not looked at when the scan from an earlier marker runs over it: behind a tag
  with an odd number of double quotes the scan is inside a string literal where the text
  is outside one, and it ends at the brace inside the literal of the next tag.
\<close>

theorem legacy_tag_in_scanned_span_is_lost:
  \<open>list_all wf_piece brace_object \<and>
   str ''[IMG:GEN:{"prompt":"5" tall"}] and '' @ marker @ render (Braces brace_object) @ str ''] x'' =
     shadowed_message \<and>
   JSON_parse (replace_all [cu CHR 0x27] [cu CHR 0x22] (render (Braces brace_object))) =
     Some (JObj [(str ''prompt'', JStr (str ''a} b''))]) \<and>
   scan_json (drop 9 shadowed_message) 9 0 False False = Some 57 \<and>
   parseImageTags JSON_parse no_file normal_mode shadowed_message = []\<close>
proof -
  have \<open>JSON_parse (replace_all [cu CHR 0x27] [cu CHR 0x22] (render (Braces brace_object))) =
     Some (JObj [(str ''prompt'', JStr (str ''a} b''))])\<close>
    by code_simp
  then show ?thesis
    using brace_object_wf shadowed_message_shape scan_shadowed
    by (simp add: parseImageTags_def no_img_shadowed legacy_shadowed)
qed

text \<open>The scan knows the double quote only: a brace between single quotes ends the span.\<close>

lemma scan_single_quoted: "scan_json (drop 9 single_quoted_message) 9 0 False False = Some 22"
  by (simp add: single_quoted_message_def str_def)

lemma single_quoted_literal_is_cut:
  "parseImageTags JSON_parse no_file normal_mode single_quoted_message = []"
proof -
  have n: "new_format_tags JSON_parse normal_mode no_file single_quoted_message 0 = []"
    by (simp add: new_format_tags.simps single_quoted_message_def exec_def imgTagRegex_def str_def
      no_captures_def same_nocase_def upper_def)
  have l: "legacy_tags JSON_parse single_quoted_message 0 = []"
    apply (subst legacy_tags.simps)
    apply (simp add: scan_single_quoted marker_def single_quoted_message_def str_def indexOf_def)
    apply (subst legacy_tags.simps)
    apply (simp add: marker_def str_def indexOf_def)
    done
  show ?thesis by (simp add: parseImageTags_def n l)
qed

section \<open>Replacement and matching\<close>

lemma get_substitution_no_dollar:
  "cu CHR ''$'' \<notin> set t \<Longrightarrow> get_substitution m b a caps t = t"
  by (induction m b a caps t rule: get_substitution.induct) auto

lemma replace_string_absent: "\<not> sublist p s \<Longrightarrow> replace_string s p r = s"
  using find_at_None_iff [of p s 0] by (simp add: replace_string_def indexOf_def)

lemma replace_string_at:
  "indexOf s p 0 = Some i \<Longrightarrow> cu CHR ''$'' \<notin> set r \<Longrightarrow>
   replace_string s p r = take i s @ r @ drop (i + length p) s"
  by (simp add: replace_string_def get_substitution_no_dollar)

lemma lit_rest_suffix: "lit_rest l s = Some s' \<Longrightarrow> suffix s' s"
  by (induction l s rule: lit_rest.induct) (auto split: if_splits intro: suffix_ConsI)

lemma rmatch_is_suffix: "rmatch r s c = Some (rest, c') \<Longrightarrow> suffix rest s"
proof (induction r s c arbitrary: rest c' rule: rmatch.induct)
  case (2 l r s c)
  from 2(2) obtain s' where l: "lit_rest l s = Some s'" and r: "rmatch r s' c = Some (rest, c')"
    by (auto split: option.splits)
  from 2(1) [OF l r] lit_rest_suffix [OF l] show ?case by (rule suffix_order.trans)
next
  case (4 k r x xs c)
  then show ?case by (fastforce split: if_splits option.splits intro: suffix_ConsI)
next
  case (6 k r x xs c)
  then show ?case by (fastforce split: if_splits intro: suffix_ConsI)
next
  case (8 r x xs c)
  then show ?case by (fastforce split: if_splits intro: suffix_ConsI)
next
  case (10 r x xs c)
  then show ?case by (fastforce split: option.splits intro: suffix_ConsI)
next
  case (12 r x xs c)
  then show ?case by (fastforce split: option.splits if_splits intro: suffix_ConsI)
qed (auto split: option.splits)

lemma suffix_take_decomp: "suffix rest s \<Longrightarrow> take (length s - length rest) s @ rest = s"
  by (auto simp: suffix_def)

lemma rsearch_decomp:
  "rsearch r s i = Some m \<Longrightarrow>
     i \<le> m_index m \<and> s = take (m_index m - i) s @ m_text m @ m_after m"
proof (induction s arbitrary: i)
  case Nil
  then show ?case by (auto split: option.splits dest: rmatch_is_suffix)
next
  case (Cons x xs)
  show ?case
  proof (cases "rmatch r (x # xs) no_captures")
    case None
    then have s: "rsearch r xs (Suc i) = Some m" using Cons.prems by simp
    from Cons.IH [OF s] have le: "Suc i \<le> m_index m"
      and d: "xs = take (m_index m - Suc i) xs @ m_text m @ m_after m" by auto
    from le have "m_index m - i = Suc (m_index m - Suc i)" by simp
    with d le show ?thesis by simp
  next
    case (Some a)
    obtain rest c where a: "a = (rest, c)" by (cases a)
    have "suffix rest (x # xs)" using Some a rmatch_is_suffix by blast
    from suffix_take_decomp [OF this] Some a Cons.prems show ?thesis by auto
  qed
qed

lemma match_first_decomp:
  "match_first r s = Some m \<Longrightarrow> s = take (m_index m) s @ m_text m @ m_after m"
  using rsearch_decomp [of r s 0 m] by (simp add: match_first_def)

lemma replace_regex_absent: "match_first r s = None \<Longrightarrow> replace_regex s r rep = s"
  by (simp add: replace_regex_def)

lemma replace_regex_at:
  "match_first r s = Some m \<Longrightarrow> cu CHR ''$'' \<notin> set rep \<Longrightarrow>
   replace_regex s r rep = take (m_index m) s @ rep @ m_after m"
  by (simp add: replace_regex_def get_substitution_no_dollar)

lemma exec_decomp:
  assumes "exec r tx k = Some m"
  shows "k \<le> m_index m" and "tx = take (m_index m) tx @ m_text m @ m_after m"
proof -
  from assms have le: "k \<le> length tx" and s: "rsearch r (drop k tx) k = Some m"
    by (auto simp: exec_def split: if_splits)
  from rsearch_decomp [OF s] have a: "k \<le> m_index m"
    and d: "drop k tx = take (m_index m - k) (drop k tx) @ m_text m @ m_after m" by auto
  show "k \<le> m_index m" by (rule a)
  have t: "take k tx @ take (m_index m - k) (drop k tx) = take (m_index m) tx"
    using a by (metis le_add_diff_inverse take_add)
  have "tx = take k tx @ drop k tx" by simp
  also have "drop k tx = take (m_index m - k) (drop k tx) @ m_text m @ m_after m"
    by (rule d)
  finally have "tx = (take k tx @ take (m_index m - k) (drop k tx)) @ m_text m @ m_after m"
    by simp
  then show "tx = take (m_index m) tx @ m_text m @ m_after m" unfolding t .
qed

lemma new_format_tags_matches:
  "new_format_tags parse opts probe tx k =
     List.map_filter (img_tag parse opts probe) (img_matches tx k)"
proof (induction parse opts probe tx k rule: new_format_tags.induct)
  case (1 parse opts probe tx lastIndex)
  show ?case
  proof (cases "exec imgTagRegex tx lastIndex")
    case None
    then show ?thesis
      by (subst new_format_tags.simps, subst img_matches.simps) (simp add: List.map_filter_simps)
  next
    case (Some m)
    then show ?thesis using 1 [OF Some]
      by (subst new_format_tags.simps, subst img_matches.simps)
         (simp add: List.map_filter_simps split: option.splits)
  qed
qed

lemma img_matches_spans:
  "m \<in> set (img_matches tx k) \<Longrightarrow>
     k \<le> m_index m \<and> m_index m + length (m_text m) \<le> length tx \<and>
     m_text m = substring tx (m_index m) (m_index m + length (m_text m))"
proof (induction tx k rule: img_matches.induct)
  case (1 tx lastIndex)
  show ?case
  proof (cases "exec imgTagRegex tx lastIndex")
    case None
    then show ?thesis using 1(2) by (subst (asm) img_matches.simps) simp
  next
    case (Some m')
    note adv = exec_imgTagRegex_advances [OF Some]
    from 1(2) Some consider "m = m'" | "m \<in> set (img_matches tx (m_index m' + length (m_text m')))"
      by (subst (asm) img_matches.simps) auto
    then show ?thesis
    proof cases
      case 1
      note d = exec_decomp [OF Some]
      have len: "m_index m' \<le> length tx" using adv by simp
      have "substring tx (m_index m') (m_index m' + length (m_text m')) = m_text m'"
        unfolding substring_def using d(2) len
        by (metis add_diff_cancel_left' append_eq_conv_conj length_take min.absorb2)
      then show ?thesis using 1 d adv by simp
    next
      case 2
      from "1.IH" [OF Some 2] adv show ?thesis by simp
    qed
  qed
qed

section \<open>The attribute grammar\<close>

text \<open>The definitions that running the parser and the rewrite on an example unfolds.\<close>

lemmas eval_defs = parseImageTags_def exec_def match_first_def
  imgTagRegex_def srcRegex_def srcSlotRegex_def str_def no_captures_def img_tag_def srcValue_of_def
  needsGeneration_def hasMarker_def hasErrorImage_def hasPath_def js_includes_def indexOf_def
  normalize_instruction_def same_nocase_def upper_def is_space_def marker_def legacy_tag_def
  substring_def make_tag_def js_or_def Let_def replace_regex_def replace_string_def
  rewrite_done_def rewrite_error_def capture_list_def is_digit_def ERROR_IMAGE_PATH_def

lemma scenario_C_matches: "img_matches scenario_C 0 = [scenario_C_match]"
  by (simp add: img_matches.simps scenario_C_def scenario_C_match_def eval_defs)

lemma scenario_C_src: "srcValue_of scenario_C = str ''/images/missing.png''"
  by (simp add: scenario_C_def eval_defs)

lemma scenario_C_json:
  \<open>JSON_parse (normalize_instruction (str ''{"prompt":"a castle"}'')) =
     Some (JObj [(str ''prompt'', JStr (str ''a castle''))])\<close>
  by code_simp

section \<open>Matching a tag of a known shape\<close>

lemma lit_rest_prefix: "lit_rest l s = Some s' \<Longrightarrow> prefix (map upper l) (map upper s)"
  by (induction l s rule: lit_rest.induct) (auto simp: same_nocase_def split: if_splits)

lemma lit_rest_None: "\<not> prefix (map upper l) (map upper s) \<Longrightarrow> lit_rest l s = None"
  using lit_rest_prefix by (cases "lit_rest l s") auto

lemma lit_rest_self: "lit_rest l (l @ s) = Some s"
  by (induction l) (auto simp: same_nocase_def)

lemma rmatch_Lit_self: "rmatch (Lit l # r) (l @ s) c = rmatch r s c"
  by (simp add: lit_rest_self)

lemma rmatch_Lit_None: "\<not> prefix (map upper l) (map upper s) \<Longrightarrow> rmatch (Lit l # r) s c = None"
  by (simp add: lit_rest_None)

lemma star_skip: "s = [] \<or> \<not> in_class k (hd s) \<Longrightarrow> rmatch (Star k # r) s c = rmatch r s c"
  by (cases s) auto

lemma star_greedy:
  "list_all (in_class k) x \<Longrightarrow> rmatch (Star k # r) s c = Some m \<Longrightarrow>
   rmatch (Star k # r) (x @ s) c = Some m"
  by (induction x) auto

lemma star_backtrack:
  assumes "list_all (in_class k) x" and "s = [] \<or> \<not> in_class k (hd s)"
    and "\<forall>i. 0 < i \<and> i \<le> length x \<longrightarrow> rmatch r (drop i x @ s) c = None"
  shows "rmatch (Star k # r) (x @ s) c = rmatch r (x @ s) c"
  using assms
proof (induction x)
  case Nil
  then show ?case by (simp add: star_skip)
next
  case (Cons a x)
  have "\<forall>i. 0 < i \<and> i \<le> length x \<longrightarrow> rmatch r (drop i x @ s) c = None"
  proof (intro allI impI)
    fix i assume "0 < i \<and> i \<le> length x"
    then show "rmatch r (drop i x @ s) c = None"
      using Cons.prems(3) [rule_format, of "Suc i"] by simp
  qed
  with Cons have "rmatch (Star k # r) (x @ s) c = rmatch r (x @ s) c" by simp
  moreover have "rmatch r (x @ s) c = None"
    using Cons.prems(3) [rule_format, of 1] by simp
  ultimately show ?case using Cons.prems(1) by simp
qed

lemma same_nocase_quote: "is_quote q \<Longrightarrow> same_nocase q x \<longleftrightarrow> x = q"
  by (auto simp: is_quote_def same_nocase_def upper_def split: if_splits)

lemma lazy_back:
  assumes "is_quote q" and "q \<notin> set v" and "group1 c = Some q"
    and "rmatch r s (c\<lparr>group2 := group2 c @ v\<rparr>) = Some m"
  shows "rmatch (LazyGroup # Back # r) (v @ q # s) c = Some m"
  using assms(2-4)
proof (induction v arbitrary: c)
  case Nil
  then show ?case using assms(1) by (simp add: same_nocase_quote)
next
  case (Cons a v)
  have "rmatch (LazyGroup # Back # r) (v @ q # s) (c\<lparr>group2 := group2 c @ [a]\<rparr>) = Some m"
    using Cons.prems by (intro Cons.IH) auto
  then show ?case using Cons.prems assms(1) by (simp add: same_nocase_quote)
qed

lemma notquote_back:
  assumes "is_quote q" and "list_all (in_class NotQuote) v" and "group1 c = Some q"
    and "rmatch r s c = Some m"
  shows "rmatch (Star NotQuote # Back # r) (v @ q # s) c = Some m"
proof -
  have "rmatch (Star NotQuote # Back # r) (q # s) c = Some m"
    using assms(1,3,4) by (auto simp: is_quote_def same_nocase_def upper_def)
  then show ?thesis using assms(2) by (rule star_greedy [rotated])
qed

lemma rsearch_hit:
  "rmatch r s no_captures = Some (rest, c) \<Longrightarrow>
   rsearch r s k = Some \<lparr>m_index = k, m_text = take (length s - length rest) s,
                          m_after = rest, m_caps = c\<rparr>"
  by (cases s) (auto dest: rmatch_suffix)

lemma rsearch_skip:
  "n \<le> length s \<Longrightarrow> \<forall>i<n. rmatch r (drop i s) no_captures = None \<Longrightarrow>
   rsearch r s k = rsearch r (drop n s) (k + n)"
proof (induction n arbitrary: s k)
  case 0
  then show ?case by simp
next
  case (Suc n)
  then obtain x xs where s: "s = x # xs" by (cases s) auto
  have h: "rmatch r (x # xs) no_captures = None"
    using Suc.prems(2) [rule_format, of 0] s by simp
  have "\<forall>i<n. rmatch r (drop i xs) no_captures = None"
    using Suc.prems(2) s by (metis Suc_less_eq drop_Suc_Cons)
  with Suc.IH [of xs "Suc k"] Suc.prems(1) s
  have "rsearch r xs (Suc k) = rsearch r (drop n xs) (Suc k + n)" by simp
  then show ?case using h s by simp
qed

lemma prefix_before_separator: "c \<notin> set u \<Longrightarrow> prefix u (xs @ c # ys) \<Longrightarrow> prefix u xs"
  by (auto simp: prefix_append prefix_Cons)

lemma upper_quote: "is_quote q \<Longrightarrow> upper q = q"
  by (auto simp: is_quote_def upper_def)

lemma not_space_quote: "is_quote q \<Longrightarrow> \<not> is_space q"
  by (auto simp: is_quote_def is_space_def)

lemma tail_match:
  assumes "cu CHR ''>'' \<notin> set mid"
  shows "rmatch [Star NotGt, Lit (str ''>'')] (mid @ cu CHR ''>'' # post) c = Some (post, c)"
proof -
  have "rmatch [Star NotGt, Lit (str ''>'')] (cu CHR ''>'' # post) c = Some (post, c)"
    by (simp add: str_def same_nocase_def)
  moreover have "list_all (in_class NotGt) mid" using assms by (auto simp: list_all_iff)
  ultimately show ?thesis by (rule star_greedy [rotated])
qed

lemma instruction_match:
  assumes "is_quote q" and "q \<notin> set json" and "cu CHR ''>'' \<notin> set mid"
  shows "rmatch [Lit (str ''data-iig-instruction''), Star Space, Lit (str ''=''), Star Space,
                 Quote, LazyGroup, Back, Star NotGt, Lit (str ''>'')]
           (str ''data-iig-instruction'' @ cu CHR ''='' # q # json @ q # mid @ cu CHR ''>'' # post)
           no_captures =
         Some (post, \<lparr>group1 = Some q, group2 = json\<rparr>)"
proof -
  have l: "rmatch (LazyGroup # Back # [Star NotGt, Lit (str ''>'')])
             (json @ q # (mid @ cu CHR ''>'' # post)) \<lparr>group1 = Some q, group2 = []\<rparr> =
           Some (post, \<lparr>group1 = Some q, group2 = json\<rparr>)"
    by (rule lazy_back) (use assms tail_match in simp_all)
  have "rmatch [Star Space, Lit (str ''=''), Star Space, Quote, LazyGroup, Back, Star NotGt,
                Lit (str ''>'')]
          (cu CHR ''='' # q # json @ q # mid @ cu CHR ''>'' # post) no_captures =
        Some (post, \<lparr>group1 = Some q, group2 = json\<rparr>)"
    using l assms(1) not_space_quote [OF assms(1)]
    by (auto simp: str_def same_nocase_def is_space_def is_quote_def no_captures_def)
  then show ?thesis by (simp only: rmatch_Lit_self)
qed

lemma sublist_separator:
  assumes "c \<notin> set u"
  shows "sublist u (xs @ c # ys) \<longleftrightarrow> sublist u xs \<or> sublist u ys"
proof
  assume "sublist u (xs @ c # ys)"
  then consider "sublist u xs" | "sublist u (c # ys)"
    | u1 u2 where "u = u1 @ u2" "suffix u1 xs" "prefix u2 (c # ys)"
    by (auto simp: sublist_append)
  then show "sublist u xs \<or> sublist u ys"
  proof cases
    case 2
    then show ?thesis using assms by (auto simp: sublist_Cons_right prefix_Cons)
  next
    case 3
    then show ?thesis using assms by (cases u2) (auto simp: prefix_Cons)
  qed simp
next
  assume "sublist u xs \<or> sublist u ys"
  then show "sublist u (xs @ c # ys)"
    by (metis sublist_append sublist_Cons_right)
qed

lemma sublist_too_long: "length xs < length u \<Longrightarrow> \<not> sublist u xs"
  using sublist_length_le [of u xs] by auto

lemma prefix_drop_sublist: "prefix u (drop k ys) \<Longrightarrow> sublist u ys"
  by (metis append_take_drop_id prefix_def sublist_appendI)

lemma quote_not_in_name: "is_quote q \<Longrightarrow> q \<notin> set name_upper"
  by (auto simp: is_quote_def name_upper_def str_def upper_def)

lemma quote_not_in_src: "is_quote q \<Longrightarrow> q \<notin> set src_upper"
  by (auto simp: is_quote_def src_upper_def str_def upper_def)

lemma length_name_upper: "length name_upper = 20"
  by (simp add: name_upper_def str_def)

lemma name_only_at_start:
  fixes json mid post :: jsstring and q :: nat
  defines "a \<equiv> str ''data-iig-instruction'' @ cu CHR ''='' # q # json @ q # mid"
  assumes q: "is_quote q"
    and j: "\<not> sublist name_upper (map upper json)"
    and m: "\<not> sublist name_upper (map upper mid)"
    and i: "0 < i" "i \<le> length a"
  shows "\<not> prefix name_upper (map upper (drop i (a @ cu CHR ''>'' # post)))"
proof
  assume p: "prefix name_upper (map upper (drop i (a @ cu CHR ''>'' # post)))"
  have gt: "cu CHR ''>'' \<notin> set name_upper" by (simp add: name_upper_def str_def upper_def)
  have eq: "cu CHR ''='' \<notin> set name_upper" by (simp add: name_upper_def str_def upper_def)
  have "map upper (drop i (a @ cu CHR ''>'' # post)) =
        map upper (drop i a) @ cu CHR ''>'' # map upper post"
    using i(2) by (simp add: upper_def)
  with p gt have "prefix name_upper (map upper (drop i a))"
    by (auto dest: prefix_before_separator)
  moreover have "drop i a = drop (i - 1) (tl a)" using i(1) by (simp add: drop_Suc [symmetric])
  ultimately have "prefix name_upper (drop (i - 1) (map upper (tl a)))" by (simp add: drop_map)
  then have s: "sublist name_upper (map upper (tl a))" by (rule prefix_drop_sublist)
  have t: "map upper (tl a) =
      map upper (str ''ata-iig-instruction'') @ cu CHR ''='' #
        ([] @ q # (map upper json @ q # map upper mid))"
    using q by (simp add: a_def str_def upper_quote) (simp add: upper_def)
  have "\<not> sublist name_upper (map upper (str ''ata-iig-instruction''))"
    by (rule sublist_too_long) (simp add: name_upper_def str_def)
  moreover have "\<not> sublist name_upper []" by (simp add: name_upper_def str_def)
  ultimately show False
    using s j m unfolding t by (simp only: sublist_separator [OF eq]
        sublist_separator [OF quote_not_in_name [OF q]] simp_thms)
qed


lemma src_not_before_slot:
  fixes json rest :: jsstring and q :: nat
  defines "b \<equiv> str ''<img data-iig-instruction='' @ q # json @ [q, 32]"
  assumes q: "is_quote q"
    and j: "\<not> sublist src_upper (map upper json)"
    and i: "i < length b"
  shows "\<not> prefix src_upper (map upper (drop i (b @ rest)))"
proof
  assume p: "prefix src_upper (map upper (drop i (b @ rest)))"
  define b0 where "b0 = str ''<img data-iig-instruction='' @ q # json @ [q]"
  have b: "b = b0 @ [32]" by (simp add: b_def b0_def)
  have sp: "32 \<notin> set src_upper" by (simp add: src_upper_def str_def upper_def)
  have eq: "cu CHR ''='' \<notin> set src_upper" by (simp add: src_upper_def str_def upper_def)
  have "i \<le> length b0" using i by (simp add: b)
  then have "map upper (drop i (b @ rest)) = map upper (drop i b0) @ 32 # map upper rest"
    by (simp add: b upper_def)
  with p sp have "prefix src_upper (map upper (drop i b0))"
    by (auto dest: prefix_before_separator)
  then have "prefix src_upper (drop i (map upper b0))" by (simp add: drop_map)
  then have s: "sublist src_upper (map upper b0)" by (rule prefix_drop_sublist)
  have t: "map upper b0 =
      map upper (str ''<img data-iig-instruction'') @ cu CHR ''='' #
        ([] @ q # (map upper json @ q # []))"
    using q by (simp add: b0_def str_def upper_quote) (simp add: upper_def)
  have "\<not> sublist src_upper (map upper (str ''<img data-iig-instruction''))"
    by (simp add: src_upper_def str_def upper_def sublist_Cons_right)
  moreover have "\<not> sublist src_upper []" by (simp add: src_upper_def str_def)
  ultimately show False
    using s j unfolding t by (simp only: sublist_separator [OF eq]
        sublist_separator [OF quote_not_in_src [OF q]] simp_thms)
qed

lemma lit_rest_iff_None: "lit_rest l s = None \<longleftrightarrow> \<not> prefix (map upper l) (map upper s)"
proof (induction l s rule: lit_rest.induct)
  case (3 a l c s)
  then show ?case by (auto simp: same_nocase_def)
qed simp_all

lemma img_tag_match:
  fixes json path post :: jsstring and q qs :: nat
  assumes q: "is_quote q" "q \<notin> set json"
    and qs: "is_quote qs"
    and p: "cu CHR ''>'' \<notin> set path"
    and j: "\<not> sublist name_upper (map upper json)"
    and n: "\<not> sublist name_upper (map upper path)"
  shows "rmatch imgTagRegex (img_with_src q json qs path @ post) no_captures =
         Some (post, \<lparr>group1 = Some q, group2 = json\<rparr>)"
proof -
  define mid where "mid = str '' src='' @ qs # path @ [qs]"
  define a where "a = str ''data-iig-instruction'' @ cu CHR ''='' # q # json @ q # mid"
  define w where "w = a @ cu CHR ''>'' # post"
  define r where "r = [Lit (str ''data-iig-instruction''), Star Space, Lit (str ''=''), Star Space,
                 Quote, LazyGroup, Back, Star NotGt, Lit (str ''>'')]"
  have gm: "cu CHR ''>'' \<notin> set mid"
    using p qs by (auto simp: mid_def str_def is_quote_def)
  have nm: "\<not> sublist name_upper (map upper mid)"
  proof -
    have eq: "cu CHR ''='' \<notin> set name_upper" by (simp add: name_upper_def str_def upper_def)
    have t: "map upper mid = map upper (str '' src'') @ cu CHR ''='' #
               ([] @ qs # (map upper path @ qs # []))"
      using qs by (simp add: mid_def str_def upper_quote) (simp add: upper_def)
    have "\<not> sublist name_upper (map upper (str '' src''))"
      by (rule sublist_too_long) (simp add: name_upper_def str_def)
    moreover have "\<not> sublist name_upper []" by (simp add: name_upper_def str_def)
    ultimately show ?thesis using n unfolding t
      by (simp only: sublist_separator [OF eq]
        sublist_separator [OF quote_not_in_name [OF qs]] simp_thms)
  qed
  have m: "rmatch r w no_captures = Some (post, \<lparr>group1 = Some q, group2 = json\<rparr>)"
    unfolding r_def w_def a_def using instruction_match [OF q gm] by simp
  define x where "x = takeWhile (in_class NotGt) w"
  define s where "s = dropWhile (in_class NotGt) w"
  have xs: "x @ s = w" by (simp add: x_def s_def)
  have ax: "list_all (in_class NotGt) x"
    unfolding x_def list_all_iff using set_takeWhileD by fast
  have hs: "s = [] \<or> \<not> in_class NotGt (hd s)"
    unfolding s_def using hd_dropWhile by blast
  have lx: "length x \<le> length a"
  proof -
    have "x = takeWhile (in_class NotGt) (a @ cu CHR ''>'' # post)" by (simp add: x_def w_def)
    also have "length \<dots> \<le> length a"
      by (simp add: takeWhile_append) (metis length_takeWhile_le)
    finally show ?thesis .
  qed
  have fail: "\<forall>i. 0 < i \<and> i \<le> length x \<longrightarrow> rmatch r (drop i x @ s) no_captures = None"
  proof (intro allI impI)
    fix i assume i: "0 < i \<and> i \<le> length x"
    then have d: "drop i x @ s = drop i w" using xs by (metis drop_append diff_is_0_eq drop0)
    have "\<not> prefix name_upper (map upper (drop i (a @ cu CHR ''>'' # post)))"
      unfolding a_def using q(1) j nm i lx
      by (intro name_only_at_start) (auto simp: a_def)
    then have "lit_rest (str ''data-iig-instruction'') (drop i w) = None"
      by (simp add: lit_rest_iff_None w_def name_upper_def)
    then show "rmatch r (drop i x @ s) no_captures = None"
      unfolding d r_def by simp
  qed
  have "rmatch (Star NotGt # r) (x @ s) no_captures = rmatch r (x @ s) no_captures"
    using ax hs fail by (rule star_backtrack)
  then have st: "rmatch (Star NotGt # r) w no_captures =
      Some (post, \<lparr>group1 = Some q, group2 = json\<rparr>)"
    unfolding xs m .
  have t: "img_with_src q json qs path @ post = str ''<img'' @ 32 # w"
    by (simp add: img_with_src_def w_def a_def mid_def str_def)
  have "rmatch (Star Space # Star NotGt # r) w no_captures =
        rmatch (Star NotGt # r) w no_captures"
    by (rule star_skip) (simp add: w_def a_def str_def is_space_def)
  then have "rmatch (Plus Space # Star NotGt # r) (32 # w) no_captures =
      Some (post, \<lparr>group1 = Some q, group2 = json\<rparr>)"
    using st by (simp add: is_space_def)
  then show ?thesis
    unfolding t imgTagRegex_def r_def by (simp only: rmatch_Lit_self)
qed


lemma exec_img_with_src:
  fixes pre json path post :: jsstring and q qs :: nat
  assumes q: "is_quote q" "q \<notin> set json"
    and qs: "is_quote qs"
    and p: "cu CHR ''>'' \<notin> set path"
    and j: "\<not> sublist name_upper (map upper json)"
    and n: "\<not> sublist name_upper (map upper path)"
    and lt: "cu CHR ''<'' \<notin> set pre"
  shows "exec imgTagRegex (pre @ img_with_src q json qs path @ post) 0 =
         Some \<lparr>m_index = length pre, m_text = img_with_src q json qs path, m_after = post,
               m_caps = \<lparr>group1 = Some q, group2 = json\<rparr>\<rparr>"
proof -
  let ?t = "img_with_src q json qs path"
  have skip: "\<forall>i<length pre. rmatch imgTagRegex (drop i (pre @ ?t @ post)) no_captures = None"
  proof (intro allI impI)
    fix i assume i: "i < length pre"
    then have "drop i (pre @ ?t @ post) = pre ! i # drop (Suc i) pre @ ?t @ post"
      by (simp add: Cons_nth_drop_Suc)
    moreover have "pre ! i \<noteq> cu CHR ''<''" using lt i by (metis nth_mem)
    then have "\<not> same_nocase 60 (pre ! i)" by (auto simp: same_nocase_def upper_def)
    ultimately show "rmatch imgTagRegex (drop i (pre @ ?t @ post)) no_captures = None"
      by (simp add: imgTagRegex_def str_def)
  qed
  have "rsearch imgTagRegex (pre @ ?t @ post) 0 =
        rsearch imgTagRegex (drop (length pre) (pre @ ?t @ post)) (0 + length pre)"
    using skip by (intro rsearch_skip) simp_all
  also have "\<dots> = rsearch imgTagRegex (?t @ post) (length pre)" by simp
  also have "\<dots> = Some \<lparr>m_index = length pre,
       m_text = take (length (?t @ post) - length post) (?t @ post), m_after = post,
       m_caps = \<lparr>group1 = Some q, group2 = json\<rparr>\<rparr>"
    by (rule rsearch_hit) (rule img_tag_match [OF q qs p j n])
  finally show ?thesis by (simp add: exec_def)
qed

lemma src_of_img_with_src:
  fixes json path :: jsstring and q qs :: nat
  assumes q: "is_quote q"
    and qs: "is_quote qs" "qs \<notin> set path"
    and j: "\<not> sublist src_upper (map upper json)"
  shows "srcValue_of (img_with_src q json qs path) = path"
proof -
  define b where "b = str ''<img data-iig-instruction='' @ q # json @ [q, 32]"
  define rest where "rest = str ''src='' @ qs # path @ qs # str ''>''"
  have t: "img_with_src q json qs path = b @ rest"
    by (simp add: img_with_src_def b_def rest_def str_def)
  have skip: "\<forall>i<length b. rmatch srcRegex (drop i (b @ rest)) no_captures = None"
  proof (intro allI impI)
    fix i assume "i < length b"
    then have "\<not> prefix src_upper (map upper (drop i (b @ rest)))"
      unfolding b_def using q j by (intro src_not_before_slot) auto
    then have "lit_rest (str ''src'') (drop i (b @ rest)) = None"
      by (simp add: lit_rest_iff_None src_upper_def)
    then show "rmatch srcRegex (drop i (b @ rest)) no_captures = None"
      by (simp add: srcRegex_def)
  qed
  have l: "rmatch [LazyGroup, Back] (path @ qs # str ''>'') \<lparr>group1 = Some qs, group2 = []\<rparr> =
           Some (str ''>'', \<lparr>group1 = Some qs, group2 = path\<rparr>)"
    by (rule lazy_back) (use qs in simp_all)
  have "rmatch [Star Space, Lit (str ''=''), Star Space, Quote, LazyGroup, Back]
          (cu CHR ''='' # qs # path @ qs # str ''>'') no_captures =
        Some (str ''>'', \<lparr>group1 = Some qs, group2 = path\<rparr>)"
    using l qs(1) not_space_quote [OF qs(1)]
    by (auto simp: str_def same_nocase_def is_space_def is_quote_def no_captures_def)
  then have m: "rmatch srcRegex rest no_captures =
        Some (str ''>'', \<lparr>group1 = Some qs, group2 = path\<rparr>)"
    unfolding srcRegex_def rest_def
    by (simp add: str_def same_nocase_def)
  have "rsearch srcRegex (b @ rest) 0 = rsearch srcRegex (drop (length b) (b @ rest)) (0 + length b)"
    using skip by (intro rsearch_skip) simp_all
  also have "\<dots> = rsearch srcRegex rest (length b)" by simp
  also have "\<dots> = Some \<lparr>m_index = length b,
       m_text = take (length rest - length (str ''>'')) rest, m_after = str ''>'',
       m_caps = \<lparr>group1 = Some qs, group2 = path\<rparr>\<rparr>"
    by (rule rsearch_hit) (rule m)
  finally show ?thesis by (simp add: srcValue_of_def match_first_def t)
qed

lemma needsGeneration_normal:
  "needsGeneration normal_mode probe v \<longleftrightarrow>
     \<not> sublist (str ''error.svg'') v \<and>
     (sublist (str ''[IMG:'') v \<or> v = [] \<or> (prefix (str ''/'') v \<and> 5 < length v \<and> \<not> probe v))"
proof -
  have "sublist (str ''[IMG:'') v" if "sublist (str ''[IMG:GEN]'') v"
  proof -
    have "sublist (str ''[IMG:'') (str ''[IMG:GEN]'')"
      by (simp add: str_def sublist_Cons_right)
    then show ?thesis using that by (meson sublist_order.order_trans)
  qed
  then show ?thesis
    by (auto simp: needsGeneration_def normal_mode_def hasErrorImage_def hasMarker_def
        hasPath_def js_includes_sublist)
qed

lemma img_tag_fields:
  "img_tag parse opts probe m = Some t \<Longrightarrow>
     index t = m_index m \<and> isNewFormat t \<and> fullMatch t = m_text m"
  by (auto simp: img_tag_def Let_def split: if_splits option.splits dest: make_tag_fields)

lemma tags_at_first_match:
  assumes e: "exec imgTagRegex tx 0 = Some m"
    and h: "\<not> prefix marker (m_text m @ m_after m)"
  shows "{t \<in> set (parseImageTags parse probe opts tx). index t = m_index m} =
         set_option (img_tag parse opts probe m)"
proof -
  note adv = exec_imgTagRegex_advances [OF e]
  note dec = exec_decomp [OF e]
  have im: "img_matches tx 0 = m # img_matches tx (m_index m + length (m_text m))"
    by (subst img_matches.simps) (simp add: e)
  have pos: "0 < length (m_text m)"
  proof -
    have "m_text m \<noteq> []"
      using e unfolding exec_def imgTagRegex_def str_def
      by (auto split: if_splits dest: rsearch_Lit_nonempty)
    then show ?thesis by simp
  qed
  have later: "index t \<noteq> m_index m"
    if "m' \<in> set (img_matches tx (m_index m + length (m_text m)))"
      and "img_tag parse opts probe m' = Some t" for m' t
    using img_matches_spans [OF that(1)] img_tag_fields [OF that(2)] pos by (simp del: length_greater_0_conv)
  have legacy: "index t \<noteq> m_index m" if "t \<in> set (legacy_tags parse tx 0)" for t
  proof
    assume i: "index t = m_index m"
    have ne: "marker \<noteq> []" by (simp add: marker_def str_def)
    from legacy_tags_spans [OF that] have "indexOf tx marker (index t) = Some (index t)"
      by (simp add: legacy_span_def)
    from indexOf_bounds(3) [OF this ne] have p: "prefix marker (drop (m_index m) tx)"
      by (simp add: i)
    have "m_index m \<le> length tx" using adv by simp
    then have "drop (m_index m) tx = m_text m @ m_after m"
      using dec(2) by (metis append_eq_conv_conj length_take min.absorb2)
    with p h show False by simp
  qed
  show ?thesis
    unfolding parseImageTags_def new_format_tags_matches im
    by (auto simp: List.map_filter_def split: option.splits
          dest: later legacy img_tag_fields)
qed












section \<open>The rewrite of a tag of a known shape\<close>

lemma indexOf_decomp:
  assumes "indexOf s p 0 = Some i"
  shows "s = take i s @ p @ drop (i + length p) s"
proof -
  from assms have "find_at p s 0 = Some i" by (simp add: indexOf_def)
  from find_at_bounds [OF this] have "prefix p (drop i s)" by simp
  then obtain r where r: "drop i s = p @ r" by (auto simp: prefix_def)
  then have "drop (i + length p) s = r"
    by (metis add.commute append_eq_conv_conj drop_drop)
  with r show ?thesis by (metis append_take_drop_id)
qed

lemma replace_string_first:
  assumes "\<forall>n<length pre. \<not> prefix p (drop n (pre @ p @ post))"
    and "cu CHR ''$'' \<notin> set r"
  shows "replace_string (pre @ p @ post) p r = pre @ r @ post"
  using replace_string_at [OF indexOf_first [OF assms(1)] assms(2)] by simp

lemma slot_of_img_with_src:
  fixes json path :: jsstring and q qs :: nat
  assumes q: "is_quote q"
    and qs: "is_quote qs" "cu CHR 0x27 \<notin> set path" "cu CHR 0x22 \<notin> set path"
    and j: "\<not> sublist src_upper (map upper json)"
  shows "match_first srcSlotRegex (img_with_src q json qs path) =
         Some \<lparr>m_index = length (str ''<img data-iig-instruction='' @ q # json @ [q, 32]),
               m_text = str ''src='' @ qs # path @ [qs], m_after = str ''>'',
               m_caps = \<lparr>group1 = Some qs, group2 = []\<rparr>\<rparr>"
proof -
  define b where "b = str ''<img data-iig-instruction='' @ q # json @ [q, 32]"
  define rest where "rest = str ''src='' @ qs # path @ qs # str ''>''"
  have t: "img_with_src q json qs path = b @ rest"
    by (simp add: img_with_src_def b_def rest_def str_def)
  have skip: "\<forall>i<length b. rmatch srcSlotRegex (drop i (b @ rest)) no_captures = None"
  proof (intro allI impI)
    fix i assume "i < length b"
    then have "\<not> prefix src_upper (map upper (drop i (b @ rest)))"
      unfolding b_def using q j by (intro src_not_before_slot) auto
    then have "lit_rest (str ''src'') (drop i (b @ rest)) = None"
      by (simp add: lit_rest_iff_None src_upper_def)
    then show "rmatch srcSlotRegex (drop i (b @ rest)) no_captures = None"
      by (simp add: srcSlotRegex_def)
  qed
  have a: "list_all (in_class NotQuote) path" using qs(2,3) by (auto simp: list_all_iff)
  have l: "rmatch [Star NotQuote, Back] (path @ qs # str ''>'') \<lparr>group1 = Some qs, group2 = []\<rparr> =
           Some (str ''>'', \<lparr>group1 = Some qs, group2 = []\<rparr>)"
    by (rule notquote_back) (use qs a in simp_all)
  have "rmatch [Star Space, Lit (str ''=''), Star Space, Quote, Star NotQuote, Back]
          (cu CHR ''='' # qs # path @ qs # str ''>'') no_captures =
        Some (str ''>'', \<lparr>group1 = Some qs, group2 = []\<rparr>)"
    using l qs(1) not_space_quote [OF qs(1)]
    by (auto simp: str_def same_nocase_def is_space_def is_quote_def no_captures_def)
  then have m: "rmatch srcSlotRegex rest no_captures =
        Some (str ''>'', \<lparr>group1 = Some qs, group2 = []\<rparr>)"
    unfolding srcSlotRegex_def rest_def
    by (simp add: str_def same_nocase_def)
  have "rsearch srcSlotRegex (b @ rest) 0 =
        rsearch srcSlotRegex (drop (length b) (b @ rest)) (0 + length b)"
    using skip by (intro rsearch_skip) simp_all
  also have "\<dots> = rsearch srcSlotRegex rest (length b)" by simp
  also have "\<dots> = Some \<lparr>m_index = length b,
       m_text = take (length rest - length (str ''>'')) rest, m_after = str ''>'',
       m_caps = \<lparr>group1 = Some qs, group2 = []\<rparr>\<rparr>"
    by (rule rsearch_hit) (rule m)
  finally show ?thesis by (simp add: match_first_def t b_def rest_def str_def)
qed

lemma requote_slot:
  fixes json path v :: jsstring and q qs :: nat
  assumes q: "is_quote q"
    and qs: "is_quote qs" "cu CHR 0x27 \<notin> set path" "cu CHR 0x22 \<notin> set path"
    and j: "\<not> sublist src_upper (map upper json)"
    and d: "cu CHR ''$'' \<notin> set v"
  shows "replace_regex (img_with_src q json qs path) srcSlotRegex
           (str ''src='' @ [cu CHR 0x22] @ v @ [cu CHR 0x22]) =
         img_with_src q json (cu CHR 0x22) v"
proof -
  have r: "cu CHR ''$'' \<notin> set (str ''src='' @ [cu CHR 0x22] @ v @ [cu CHR 0x22])"
    using d by (simp add: str_def)
  show ?thesis
    unfolding replace_regex_at [OF slot_of_img_with_src [OF q qs j] r]
    by (simp add: img_with_src_def str_def)
qed

lemma rewrite_slot:
  fixes pre json path post v :: jsstring and q qs :: nat
  assumes q: "is_quote q"
    and qs: "is_quote qs" "cu CHR 0x27 \<notin> set path" "cu CHR 0x22 \<notin> set path"
    and j: "\<not> sublist src_upper (map upper json)"
    and d: "cu CHR ''$'' \<notin> set v" "cu CHR ''$'' \<notin> set json"
    and f: "\<forall>n<length pre. \<not> prefix (img_with_src q json qs path)
              (drop n (pre @ img_with_src q json qs path @ post))"
  shows "replace_string (pre @ img_with_src q json qs path @ post) (img_with_src q json qs path)
           (replace_regex (img_with_src q json qs path) srcSlotRegex
              (str ''src='' @ [cu CHR 0x22] @ v @ [cu CHR 0x22])) =
         pre @ img_with_src q json (cu CHR 0x22) v @ post"
proof -
  have "cu CHR ''$'' \<notin> set (img_with_src q json (cu CHR 0x22) v)"
    using d q by (auto simp: img_with_src_def str_def is_quote_def)
  then show ?thesis
    unfolding requote_slot [OF q qs j d(1)] using f by (intro replace_string_first)
qed

lemma rewrite_done_text:
  "rewrite_done mes tg imagePath = replace_string mes (fullMatch tg) (done_text tg imagePath)"
  by (simp add: rewrite_done_def done_text_def Let_def)

lemma match_first_parts:
  assumes "match_first r s = Some m"
  shows "set (take (m_index m) s) \<subseteq> set s" and "set (m_after m) \<subseteq> set s"
proof -
  show "set (take (m_index m) s) \<subseteq> set s" by (rule set_take_subset)
  from match_first_decomp [OF assms]
  have "set s = set (take (m_index m) s @ m_text m @ m_after m)" by simp
  then show "set (m_after m) \<subseteq> set s" by auto
qed

lemma done_text_no_dollar:
  assumes "cu CHR ''$'' \<notin> set imagePath" and "cu CHR ''$'' \<notin> set (fullMatch tg)"
  shows "cu CHR ''$'' \<notin> set (done_text tg imagePath)"
proof (cases "isNewFormat tg")
  case False
  then show ?thesis using assms(1) by (simp add: done_text_def str_def)
next
  case True
  let ?rep = "str ''src='' @ [cu CHR 0x22] @ imagePath @ [cu CHR 0x22]"
  have r: "cu CHR ''$'' \<notin> set ?rep" using assms(1) by (simp add: str_def)
  show ?thesis
  proof (cases "match_first srcSlotRegex (fullMatch tg)")
    case None
    then show ?thesis using True assms(2) by (simp add: done_text_def replace_regex_absent)
  next
    case (Some m)
    have "cu CHR ''$'' \<notin> set (take (m_index m) (fullMatch tg) @ ?rep @ m_after m)"
      using match_first_parts [OF Some] assms(2) r by auto
    moreover have "done_text tg imagePath = take (m_index m) (fullMatch tg) @ ?rep @ m_after m"
      using True replace_regex_at [OF Some r] by (simp only: done_text_def if_True)
    ultimately show ?thesis by simp
  qed
qed

lemma replace_string_again:
  assumes "cu CHR ''$'' \<notin> set r"
  shows "replace_string s p r = s \<longleftrightarrow> \<not> sublist p s \<or> r = p"
proof (cases "indexOf s p 0")
  case None
  then show ?thesis using find_at_None_iff [of p s 0]
    by (simp add: replace_string_def indexOf_def)
next
  case (Some i)
  then have "sublist p s" using find_at_None_iff [of p s 0] by (simp add: indexOf_def)
  moreover have "replace_string s p r = take i s @ r @ drop (i + length p) s"
    using Some assms by (rule replace_string_at)
  moreover have "s = take i s @ p @ drop (i + length p) s"
    using Some by (rule indexOf_decomp)
  ultimately show ?thesis by (metis append_same_eq same_append_eq)
qed


lemma pending_message_shape:
  "img_with_src (cu CHR 0x27) castle_json (cu CHR 0x22) (str ''[IMG:GEN]'') = pending_message"
  by (simp add: img_with_src_def castle_json_def pending_message_def str_def)


lemma castle_json_facts:
  "\<not> mentions castle_json (str ''src'')"
  "\<not> mentions castle_json (str ''data-iig-instruction'')"
  "cu CHR ''$'' \<notin> set castle_json" "cu CHR 0x27 \<notin> set castle_json"
  by (simp_all add: mentions_def castle_json_def str_def upper_def sublist_Cons_right)

lemma marker_value_facts:
  "cu CHR 0x27 \<notin> set (str ''[IMG:GEN]'')" "cu CHR 0x22 \<notin> set (str ''[IMG:GEN]'')"
  "cu CHR ''>'' \<notin> set (str ''[IMG:GEN]'')"
  "\<not> mentions (str ''[IMG:GEN]'') (str ''data-iig-instruction'')"
  by (simp_all add: str_def mentions_def upper_def sublist_Cons_right)

lemma quote_facts: "is_quote (cu CHR 0x27)" "is_quote (cu CHR 0x22)"
  by (simp_all add: is_quote_def)

lemma castle_png_facts: "cu CHR ''$'' \<notin> set castle_png"
  by (simp add: castle_png_def str_def)

lemma pending_message_done:
  "rewrite_done (pre @ pending_message @ str '' done'') (castle_tag pending_message i) castle_png =
   replace_string (pre @ pending_message @ str '' done'') pending_message
     (img_with_src (cu CHR 0x27) castle_json (cu CHR 0x22) castle_png)"
proof -
  have j: "\<not> sublist src_upper (map upper castle_json)"
    using castle_json_facts(1) by (simp add: mentions_def src_upper_def)
  show ?thesis
    using requote_slot [OF quote_facts(1) quote_facts(2) marker_value_facts(1,2) j
        castle_png_facts, unfolded pending_message_shape]
    by (simp add: rewrite_done_def castle_tag_def)
qed

lemma castle_done_once:
  \<open>rewrite_done (str ''look: '' @ pending_message @ str '' done'')
     (castle_tag pending_message 6) castle_png =
   str ''look: <img data-iig-instruction='{"prompt":"a castle"}' src="/user/images/castle.png"> done''\<close>
  unfolding pending_message_done
  by (simp add: replace_string_def indexOf_def pending_message_def img_with_src_def
      castle_json_def castle_png_def str_def)

lemma two_castles_once:
  \<open>rewrite_done two_castles (castle_tag pending_message 0) castle_png =
   str ''<img data-iig-instruction='{"prompt":"a castle"}' src="/user/images/castle.png"> and <img data-iig-instruction='{"prompt":"a castle"}' src="[IMG:GEN]">''\<close>
proof -
  have "rewrite_done ([] @ pending_message @ str '' and '' @ pending_message)
          (castle_tag pending_message 0) castle_png =
        replace_string ([] @ pending_message @ str '' and '' @ pending_message) pending_message
          (img_with_src (cu CHR 0x27) castle_json (cu CHR 0x22) castle_png)"
  proof -
    have j: "\<not> sublist src_upper (map upper castle_json)"
      using castle_json_facts(1) by (simp add: mentions_def src_upper_def)
    show ?thesis
      using requote_slot [OF quote_facts(1) quote_facts(2) marker_value_facts(1,2) j
          castle_png_facts, unfolded pending_message_shape]
      by (simp add: rewrite_done_def castle_tag_def)
  qed
  then show ?thesis
    by (simp add: two_castles_def replace_string_def indexOf_def pending_message_def
        img_with_src_def castle_json_def castle_png_def str_def)
qed

lemma two_castles_twice:
  \<open>rewrite_done
     (str ''<img data-iig-instruction='{"prompt":"a castle"}' src="/user/images/castle.png"> and <img data-iig-instruction='{"prompt":"a castle"}' src="[IMG:GEN]">'')
     (castle_tag pending_message 0) castle_png =
   str ''<img data-iig-instruction='{"prompt":"a castle"}' src="/user/images/castle.png"> and <img data-iig-instruction='{"prompt":"a castle"}' src="/user/images/castle.png">''\<close>
proof -
  have j: "\<not> sublist src_upper (map upper castle_json)"
    using castle_json_facts(1) by (simp add: mentions_def src_upper_def)
  have "rewrite_done mes (castle_tag pending_message 0) castle_png =
        replace_string mes pending_message
          (img_with_src (cu CHR 0x27) castle_json (cu CHR 0x22) castle_png)" for mes
    using requote_slot [OF quote_facts(1) quote_facts(2) marker_value_facts(1,2) j
        castle_png_facts, unfolded pending_message_shape]
    by (simp add: rewrite_done_def castle_tag_def)
  then show ?thesis
    by (simp add: replace_string_def indexOf_def pending_message_def
        img_with_src_def castle_json_def castle_png_def str_def)
qed

lemma no_slot_matches:
  \<open>img_matches no_slot_message 0 =
     [\<lparr>m_index = 0, m_text = no_slot_message, m_after = [],
       m_caps = \<lparr>group1 = Some (cu CHR 0x27), group2 = str ''{"prompt":"a castle"}''\<rparr>\<rparr>]\<close>
  by (simp add: img_matches.simps no_slot_message_def eval_defs)

lemma no_slot_src: "srcValue_of no_slot_message = []"
  by (simp add: no_slot_message_def eval_defs)

lemma no_slot_legacy: "legacy_tags parse no_slot_message 0 = []"
  by (subst legacy_tags.simps) (simp add: no_slot_message_def marker_def str_def indexOf_def)

lemma no_slot_unmatched: "match_first srcSlotRegex no_slot_message = None"
  by (simp add: no_slot_message_def eval_defs)

lemma no_slot_tag:
  \<open>img_tag JSON_parse normal_mode no_file
     \<lparr>m_index = 0, m_text = no_slot_message, m_after = [],
       m_caps = \<lparr>group1 = Some (cu CHR 0x27), group2 = str ''{"prompt":"a castle"}''\<rparr>\<rparr> =
   Some (castle_tag no_slot_message 0)\<close>
proof -
  have n: "needsGeneration normal_mode no_file []"
    by (simp add: needsGeneration_normal str_def)
  have h: "\<not> hasPath []" by (simp add: hasPath_def)
  have k: \<open>make_tag (JObj [(str ''prompt'', JStr (str ''a castle''))]) no_slot_message 0 True None =
     Some (castle_tag no_slot_message 0)\<close>
    by (simp add: make_tag_def castle_tag_def js_or_def str_def)
  show ?thesis
    unfolding img_tag_def Let_def by (simp add: no_slot_src n h scenario_C_json k)
qed

lemma no_slot_parse:
  "parseImageTags JSON_parse no_file normal_mode no_slot_message = [castle_tag no_slot_message 0]"
  unfolding parseImageTags_def new_format_tags_matches no_slot_matches no_slot_legacy
    List.map_filter_simps no_slot_tag
  by simp

lemma img_with_src_at:
  fixes parse :: "jsstring \<Rightarrow> jsval option" and probe :: "jsstring \<Rightarrow> bool"
    and pre json path post :: jsstring and q qs :: nat
  assumes "is_quote q" and "q \<notin> set json" and "is_quote qs" and "qs \<notin> set path"
    and "cu CHR ''>'' \<notin> set path" and "cu CHR ''<'' \<notin> set pre"
    and "\<not> mentions json (str ''data-iig-instruction'')"
    and "\<not> mentions path (str ''data-iig-instruction'')"
    and "\<not> mentions json (str ''src'')"
  shows "{t \<in> set (parseImageTags parse probe opts (pre @ img_with_src q json qs path @ post)).
            index t = length pre} =
         set_option
           (if \<not> needsGeneration opts probe path then None
            else case parse (normalize_instruction json) of
                   None \<Rightarrow> None
                 | Some data \<Rightarrow> make_tag data (img_with_src q json qs path) (length pre) True
                     (if hasPath path then Some path else None))"
proof -
  define tg where "tg = img_with_src q json qs path"
  define m where "m = \<lparr>m_index = length pre, m_text = tg, m_after = post,
               m_caps = \<lparr>group1 = Some q, group2 = json\<rparr>\<rparr>"
  have e: "exec imgTagRegex (pre @ tg @ post) 0 = Some m"
    unfolding tg_def m_def using assms
    by (intro exec_img_with_src) (simp_all add: mentions_def name_upper_def)
  have s: "srcValue_of tg = path"
    unfolding tg_def using assms
    by (intro src_of_img_with_src) (simp_all add: mentions_def src_upper_def)
  have h: "\<not> prefix marker (m_text m @ m_after m)"
    by (simp add: m_def tg_def img_with_src_def marker_def str_def)
  have "{t \<in> set (parseImageTags parse probe opts (pre @ tg @ post)). index t = length pre} =
            set_option (img_tag parse opts probe m)"
    using tags_at_first_match [OF e h, of parse probe opts] by (simp add: m_def)
  moreover have "img_tag parse opts probe m =
      (if \<not> needsGeneration opts probe path then None
       else case parse (normalize_instruction json) of
              None \<Rightarrow> None
            | Some data \<Rightarrow> make_tag data tg (length pre) True
                (if hasPath path then Some path else None))"
    by (auto simp: img_tag_def Let_def m_def s split: option.splits)
  ultimately show ?thesis unfolding tg_def by simp
qed

lemma error_path_facts:
  "cu CHR 0x27 \<notin> set ERROR_IMAGE_PATH" "cu CHR 0x22 \<notin> set ERROR_IMAGE_PATH"
  "cu CHR ''>'' \<notin> set ERROR_IMAGE_PATH" "cu CHR ''$'' \<notin> set ERROR_IMAGE_PATH"
  "\<not> mentions ERROR_IMAGE_PATH (str ''data-iig-instruction'')"
  "sublist (str ''error.svg'') ERROR_IMAGE_PATH"
  by (simp_all add: ERROR_IMAGE_PATH_def mentions_def str_def upper_def sublist_Cons_right)

text \<open>
  With a resource slot in the tag, the rewrite after a failure puts the error image into
  the slot; a parse in normal mode then returns no tag at that index, and a parse that
  forces all returns the tag when its instruction decodes.
\<close>

lemma error_sentinel_is_skipped:
  fixes parse :: "jsstring \<Rightarrow> jsval option" and probe :: "jsstring \<Rightarrow> bool"
    and pre json path post message :: jsstring and q qs :: nat and tg :: tag
  defines "failed \<equiv> pre @ img_with_src q json (cu CHR 0x22) ERROR_IMAGE_PATH @ post"
  assumes t: "isNewFormat tg" "fullMatch tg = img_with_src q json qs path"
    and q: "is_quote q" "q \<notin> set json" "is_quote qs"
      "cu CHR 0x27 \<notin> set path" "cu CHR 0x22 \<notin> set path"
    and j: "\<not> mentions json (str ''data-iig-instruction'')" "\<not> mentions json (str ''src'')"
      "cu CHR ''$'' \<notin> set json"
    and p: "cu CHR ''<'' \<notin> set pre"
      "\<forall>n<length pre. \<not> prefix (fullMatch tg) (drop n (pre @ fullMatch tg @ post))"
  shows "rewrite_error (pre @ fullMatch tg @ post) tg message = failed"
    and "\<forall>t \<in> set (parseImageTags parse probe normal_mode failed). index t \<noteq> length pre"
    and "parse (normalize_instruction json) = Some data \<Longrightarrow> data \<noteq> JNull \<Longrightarrow>
         data \<noteq> JUndefined \<Longrightarrow>
         \<exists>t \<in> set (parseImageTags parse probe regenerate_mode failed).
           index t = length pre \<and> prompt t = js_or (get_prop data (str ''prompt'')) (JStr [])"
proof -
  have js: "\<not> sublist src_upper (map upper json)"
    using j(2) by (simp add: mentions_def src_upper_def)
  have f: "\<forall>n<length pre. \<not> prefix (img_with_src q json qs path)
              (drop n (pre @ img_with_src q json qs path @ post))"
    using p(2) t(2) by simp
  have "rewrite_error (pre @ img_with_src q json qs path @ post) tg message =
      replace_string (pre @ img_with_src q json qs path @ post) (img_with_src q json qs path)
       (replace_regex (img_with_src q json qs path) srcSlotRegex
          (str ''src='' @ [cu CHR 0x22] @ ERROR_IMAGE_PATH @ [cu CHR 0x22]))"
    using t by (simp add: rewrite_error_def Let_def)
  also have "\<dots> = failed"
    unfolding failed_def using q js error_path_facts(4) j(3) f by (intro rewrite_slot) simp_all
  finally show "rewrite_error (pre @ fullMatch tg @ post) tg message = failed"
    using t(2) by simp
  note at = img_with_src_at [OF q(1,2) quote_facts(2) error_path_facts(2,3) p(1) j(1)
      error_path_facts(5) j(2), of parse probe _ post, folded failed_def]
  have n: "\<not> needsGeneration normal_mode probe ERROR_IMAGE_PATH"
    using error_path_facts(6) by (simp add: needsGeneration_normal)
  have "{t \<in> set (parseImageTags parse probe normal_mode failed). index t = length pre} = {}"
    unfolding at using n by simp
  then show "\<forall>t \<in> set (parseImageTags parse probe normal_mode failed). index t \<noteq> length pre"
    by blast
  assume d: "parse (normalize_instruction json) = Some data" "data \<noteq> JNull" "data \<noteq> JUndefined"
  have r: "needsGeneration regenerate_mode probe ERROR_IMAGE_PATH"
    by (simp add: needsGeneration_def regenerate_mode_def)
  obtain u where u: "make_tag data (img_with_src q json (cu CHR 0x22) ERROR_IMAGE_PATH)
      (length pre) True (if hasPath ERROR_IMAGE_PATH then Some ERROR_IMAGE_PATH else None) = Some u"
    using d(2,3) by (auto simp: make_tag_def)
  have "u \<in> {t \<in> set (parseImageTags parse probe regenerate_mode failed). index t = length pre}"
    unfolding at using r d(1) u by simp
  moreover have "prompt u = js_or (get_prop data (str ''prompt'')) (JStr [])"
    using u d(2,3) by (auto simp: make_tag_def split: if_splits)
  ultimately show "\<exists>t \<in> set (parseImageTags parse probe regenerate_mode failed).
           index t = length pre \<and> prompt t = js_or (get_prop data (str ''prompt'')) (JStr [])"
    by blast
qed




text \<open>
  Claim C5. When neither the path nor the text of the tag holds a dollar, rewriting the
  message a second time for the same tag and path changes nothing exactly when the text of
  the tag does not occur in the message rewritten once, or the rewrite puts the text of the
  tag in its own place.
\<close>

theorem rewrite_done_idempotent:
  assumes "cu CHR ''$'' \<notin> set imagePath" and "cu CHR ''$'' \<notin> set (fullMatch tg)"
  shows "rewrite_done (rewrite_done mes tg imagePath) tg imagePath =
           rewrite_done mes tg imagePath \<longleftrightarrow>
         \<not> sublist (fullMatch tg) (rewrite_done mes tg imagePath) \<or>
         done_text tg imagePath = fullMatch tg"
  unfolding rewrite_done_text [of "rewrite_done mes tg imagePath"]
  using done_text_no_dollar [OF assms] by (rule replace_string_again)

theorem rewrite_done_idempotent_witness:
  "rewrite_done
     (rewrite_done (str ''look: '' @ pending_message @ str '' done'')
        (castle_tag pending_message 6) castle_png)
     (castle_tag pending_message 6) castle_png =
   rewrite_done (str ''look: '' @ pending_message @ str '' done'')
     (castle_tag pending_message 6) castle_png"
proof -
  have d: "cu CHR ''$'' \<notin> set (fullMatch (castle_tag pending_message 6))"
    by (simp add: castle_tag_def pending_message_def str_def)
  have "\<not> sublist (fullMatch (castle_tag pending_message 6))
          (rewrite_done (str ''look: '' @ pending_message @ str '' done'')
             (castle_tag pending_message 6) castle_png)"
    unfolding castle_done_once
    by (simp add: castle_tag_def pending_message_def str_def sublist_Cons_right)
  then show ?thesis
    using rewrite_done_idempotent [OF castle_png_facts d,
        of "str ''look: '' @ pending_message @ str '' done''"] by simp
qed

text \<open>With the same tag twice in the message, the second rewrite changes the second tag.\<close>

theorem rewrite_done_twice_differs:
  "rewrite_done (rewrite_done two_castles (castle_tag pending_message 0) castle_png)
     (castle_tag pending_message 0) castle_png \<noteq>
   rewrite_done two_castles (castle_tag pending_message 0) castle_png"
  unfolding two_castles_once two_castles_twice by (simp add: str_def)

text \<open>
  Claim C7. A tag without a resource slot is pending for the parser. The rewrite after a
  failure finds no slot in it and leaves the message as it was, and the parse of the
  rewritten message in normal mode returns the tag again.
\<close>

theorem error_without_slot_is_redispatched:
  "parseImageTags JSON_parse no_file normal_mode no_slot_message = [castle_tag no_slot_message 0] \<and>
   rewrite_error no_slot_message (castle_tag no_slot_message 0) boom = no_slot_message \<and>
   parseImageTags JSON_parse no_file normal_mode
     (rewrite_error no_slot_message (castle_tag no_slot_message 0) boom) =
     [castle_tag no_slot_message 0]"
proof -
  have d: "cu CHR ''$'' \<notin> set no_slot_message" by (simp add: no_slot_message_def str_def)
  have "replace_string no_slot_message no_slot_message no_slot_message = no_slot_message"
    using replace_string_again [OF d, of no_slot_message no_slot_message] by simp
  then have "rewrite_error no_slot_message (castle_tag no_slot_message 0) boom = no_slot_message"
    by (simp add: rewrite_error_def castle_tag_def replace_regex_absent [OF no_slot_unmatched])
  then show ?thesis using no_slot_parse by simp
qed

section \<open>The order of the tags\<close>








text \<open>
  A tag whose instruction \<open>JSON.parse\<close> rejects is left out, and the tag behind it is
  returned.
\<close>

lemma malformed_is_skipped:
  "parseImageTags JSON_parse no_file normal_mode malformed_message =
     [castle_tag pending_message 51]"
proof -
  have m: \<open>img_matches malformed_message 0 =
     [\<lparr>m_index = 0, m_text = str ''<img data-iig-instruction='{oops' src="[IMG:GEN]">'',
       m_after = str '' '' @ pending_message,
       m_caps = \<lparr>group1 = Some (cu CHR 0x27), group2 = str ''{oops''\<rparr>\<rparr>,
      \<lparr>m_index = 51, m_text = pending_message, m_after = [],
       m_caps = \<lparr>group1 = Some (cu CHR 0x27), group2 = str ''{"prompt":"a castle"}''\<rparr>\<rparr>]\<close>
    by (simp add: img_matches.simps malformed_message_def pending_message_def eval_defs)
  have s1: \<open>srcValue_of (str ''<img data-iig-instruction='{oops' src="[IMG:GEN]">'') =
      str ''[IMG:GEN]''\<close>
    by (simp add: eval_defs)
  have s2: "srcValue_of pending_message = str ''[IMG:GEN]''"
    by (simp add: pending_message_def eval_defs)
  have l: "legacy_tags JSON_parse malformed_message 0 = []"
    by (subst legacy_tags.simps)
       (simp add: malformed_message_def pending_message_def marker_def str_def indexOf_def)
  have n: "needsGeneration normal_mode no_file (str ''[IMG:GEN]'')"
    by (simp add: needsGeneration_normal str_def sublist_Cons_right)
  have h: "\<not> hasPath (str ''[IMG:GEN]'')" by (simp add: hasPath_def str_def)
  have j: "JSON_parse (normalize_instruction (str ''{oops'')) = None"
    by code_simp
  have k: \<open>make_tag (JObj [(str ''prompt'', JStr (str ''a castle''))]) pending_message 51 True None =
     Some (castle_tag pending_message 51)\<close>
    by (simp add: make_tag_def castle_tag_def js_or_def str_def)
  have t1: \<open>img_tag JSON_parse normal_mode no_file
     \<lparr>m_index = 0, m_text = str ''<img data-iig-instruction='{oops' src="[IMG:GEN]">'',
       m_after = str '' '' @ pending_message,
       m_caps = \<lparr>group1 = Some (cu CHR 0x27), group2 = str ''{oops''\<rparr>\<rparr> = None\<close>
    unfolding img_tag_def Let_def by (simp add: s1 n j)
  have t2: \<open>img_tag JSON_parse normal_mode no_file
     \<lparr>m_index = 51, m_text = pending_message, m_after = [],
       m_caps = \<lparr>group1 = Some (cu CHR 0x27), group2 = str ''{"prompt":"a castle"}''\<rparr>\<rparr> =
     Some (castle_tag pending_message 51)\<close>
    unfolding img_tag_def Let_def by (simp add: s2 n h scenario_C_json k)
  show ?thesis
    unfolding parseImageTags_def new_format_tags_matches m l List.map_filter_simps t1 t2
    by simp
qed

section \<open>The orchestration\<close>

lemma pending_parse: "parse_normal pending_message = [castle_tag pending_message 0]"
proof -
  have m: \<open>img_matches pending_message 0 =
     [\<lparr>m_index = 0, m_text = pending_message, m_after = [],
       m_caps = \<lparr>group1 = Some (cu CHR 0x27), group2 = str ''{"prompt":"a castle"}''\<rparr>\<rparr>]\<close>
    by (simp add: img_matches.simps pending_message_def eval_defs)
  have s: "srcValue_of pending_message = str ''[IMG:GEN]''"
    by (simp add: pending_message_def eval_defs)
  have l: "legacy_tags JSON_parse pending_message 0 = []"
    by (subst legacy_tags.simps) (simp add: pending_message_def marker_def str_def indexOf_def)
  have n: "needsGeneration normal_mode no_file (str ''[IMG:GEN]'')"
    by (simp add: needsGeneration_normal str_def sublist_Cons_right)
  have h: "\<not> hasPath (str ''[IMG:GEN]'')" by (simp add: hasPath_def str_def)
  have k: \<open>make_tag (JObj [(str ''prompt'', JStr (str ''a castle''))]) pending_message 0 True None =
     Some (castle_tag pending_message 0)\<close>
    by (simp add: make_tag_def castle_tag_def js_or_def str_def)
  have t: \<open>img_tag JSON_parse normal_mode no_file
     \<lparr>m_index = 0, m_text = pending_message, m_after = [],
       m_caps = \<lparr>group1 = Some (cu CHR 0x27), group2 = str ''{"prompt":"a castle"}''\<rparr>\<rparr> =
     Some (castle_tag pending_message 0)\<close>
    unfolding img_tag_def Let_def by (simp add: s n h scenario_C_json k)
  show ?thesis
    unfolding parse_normal_def parseImageTags_def new_format_tags_matches m l
      List.map_filter_simps t
    by simp
qed

lemma number_json:
  \<open>JSON_parse (normalize_instruction (str ''{"prompt":123}'')) =
     Some (JObj [(str ''prompt'', JNum True (str ''123''))])\<close>
  by code_simp

lemma number_and_castle_parse:
  "parse_normal number_and_castle = [number_tag, castle_tag pending_message 64]"
proof -
  have m: \<open>img_matches number_and_castle 0 =
     [\<lparr>m_index = 0, m_text = number_prompt, m_after = str '' and '' @ pending_message,
       m_caps = \<lparr>group1 = Some (cu CHR 0x27), group2 = str ''{"prompt":123}''\<rparr>\<rparr>,
      \<lparr>m_index = 64, m_text = pending_message, m_after = [],
       m_caps = \<lparr>group1 = Some (cu CHR 0x27), group2 = str ''{"prompt":"a castle"}''\<rparr>\<rparr>]\<close>
    by (simp add: img_matches.simps number_and_castle_def number_prompt_def pending_message_def
        eval_defs)
  have s1: "srcValue_of number_prompt = str ''[IMG:GEN]''"
    by (simp add: number_prompt_def eval_defs)
  have s2: "srcValue_of pending_message = str ''[IMG:GEN]''"
    by (simp add: pending_message_def eval_defs)
  have l: "legacy_tags JSON_parse number_and_castle 0 = []"
    by (subst legacy_tags.simps)
       (simp add: number_and_castle_def number_prompt_def pending_message_def marker_def str_def
          indexOf_def)
  have n: "needsGeneration normal_mode no_file (str ''[IMG:GEN]'')"
    by (simp add: needsGeneration_normal str_def sublist_Cons_right)
  have h: "\<not> hasPath (str ''[IMG:GEN]'')" by (simp add: hasPath_def str_def)
  have k1: \<open>make_tag (JObj [(str ''prompt'', JNum True (str ''123''))]) number_prompt 0 True None =
     Some number_tag\<close>
    by (simp add: make_tag_def number_tag_def js_or_def str_def)
  have k2: \<open>make_tag (JObj [(str ''prompt'', JStr (str ''a castle''))]) pending_message 64 True None =
     Some (castle_tag pending_message 64)\<close>
    by (simp add: make_tag_def castle_tag_def js_or_def str_def)
  have t1: \<open>img_tag JSON_parse normal_mode no_file
     \<lparr>m_index = 0, m_text = number_prompt, m_after = str '' and '' @ pending_message,
       m_caps = \<lparr>group1 = Some (cu CHR 0x27), group2 = str ''{"prompt":123}''\<rparr>\<rparr> =
     Some number_tag\<close>
    unfolding img_tag_def Let_def by (simp add: s1 n h number_json k1)
  have t2: \<open>img_tag JSON_parse normal_mode no_file
     \<lparr>m_index = 64, m_text = pending_message, m_after = [],
       m_caps = \<lparr>group1 = Some (cu CHR 0x27), group2 = str ''{"prompt":"a castle"}''\<rparr>\<rparr> =
     Some (castle_tag pending_message 64)\<close>
    unfolding img_tag_def Let_def by (simp add: s2 n h scenario_C_json k2)
  show ?thesis
    unfolding parse_normal_def parseImageTags_def new_format_tags_matches m l
      List.map_filter_simps t1 t2
    by simp
qed


lemma scenario_C_parse: "parse_normal scenario_C = [missing_tag]"
proof -
  have l: "legacy_tags JSON_parse scenario_C 0 = []"
    by (subst legacy_tags.simps) (simp add: scenario_C_def marker_def str_def indexOf_def)
  have n: "needsGeneration normal_mode no_file (str ''/images/missing.png'')"
    by (simp add: needsGeneration_normal no_file_def str_def sublist_Cons_right)
  have h: "hasPath (str ''/images/missing.png'')" by (simp add: hasPath_def str_def)
  have k: \<open>make_tag (JObj [(str ''prompt'', JStr (str ''a castle''))]) scenario_C 0 True
       (Some (str ''/images/missing.png'')) = Some missing_tag\<close>
    by (simp add: make_tag_def missing_tag_def castle_tag_def js_or_def str_def)
  have t: "img_tag JSON_parse normal_mode no_file scenario_C_match = Some missing_tag"
    unfolding img_tag_def Let_def
    by (simp add: scenario_C_match_def scenario_C_src n h scenario_C_json k)
  show ?thesis
    unfolding parse_normal_def parseImageTags_def new_format_tags_matches scenario_C_matches l
      List.map_filter_simps t
    by simp
qed

lemma marked_not_admitted: "messageId \<in> processingMessages w \<Longrightarrow> \<not> admitted w messageId"
  by (simp add: admitted_def)

lemma marked_call_does_nothing:
  "messageId \<in> processingMessages w \<Longrightarrow> processMessageTags parse generate w messageId = w"
  by (simp add: processMessageTags_def marked_not_admitted)

lemma mark_and_start_marks:
  "tags \<noteq> [] \<Longrightarrow> messageId \<in> processingMessages (fst (mark_and_start w messageId tags))"
  by (simp add: mark_and_start_def Let_def)

lemma finish_unmarks: "messageId \<notin> processingMessages (finish w messageId jobs)"
  by (simp add: finish_def)

lemma join_events_fulfilled:
  assumes "Rejects \<notin> set ends"
  shows "join_events messageId ends =
           map (Settled messageId) [0..<length ends] @ [Unmarked messageId, SavedChat messageId]"
proof -
  let ?z = "zip [0..<length ends] ends"
  have a: "\<forall>x \<in> set ?z. (\<lambda>(k, e). e \<noteq> Rejects) x"
    using assms by (auto dest: set_zip_rightD)
  then have t: "takeWhile (\<lambda>(k, e). e \<noteq> Rejects) ?z = ?z"
    and d: "dropWhile (\<lambda>(k, e). e \<noteq> Rejects) ?z = []"
    by (simp_all add: takeWhile_eq_all_conv)
  have "job_event messageId x = Settled messageId (fst x)" if "x \<in> set ?z" for x
  proof -
    from a that have "snd x \<noteq> Rejects" by auto
    then show ?thesis by (cases x, cases "snd x") auto
  qed
  then have "map (job_event messageId) ?z = map (\<lambda>x. Settled messageId (fst x)) ?z"
    by (intro map_cong) auto
  also have "\<dots> = map (Settled messageId) (map fst ?z)" by (simp only: map_map o_def)
  finally have "map (job_event messageId) ?z = map (Settled messageId) (map fst ?z)" .
  then have "map (job_event messageId) ?z = map (Settled messageId) [0..<length ends]"
    by simp
  then show ?thesis by (simp add: join_events_def Let_def t d)
qed

text \<open>
  Claim C10. The element of the message is not found: the call marks the message, returns
  before the jobs, and leaves the mark. When the element is there again, a later call for
  the message is turned away and changes nothing.
\<close>

theorem mark_is_left_behind:
  "processingMessages (processMessageTags parse_normal generate_castle (unrendered scenario_C) 0)
     = {0} \<and>
   events (processMessageTags parse_normal generate_castle (unrendered scenario_C) 0) = [] \<and>
   processMessageTags parse_normal generate_castle
     ((processMessageTags parse_normal generate_castle (unrendered scenario_C) 0)
        \<lparr>messageElement := everywhere\<rparr>) 0 =
   (processMessageTags parse_normal generate_castle (unrendered scenario_C) 0)
     \<lparr>messageElement := everywhere\<rparr>"
proof -
  have r: "processMessageTags parse_normal generate_castle (unrendered scenario_C) 0 =
           (unrendered scenario_C)\<lparr>processingMessages := {0}\<rparr>"
    by (simp add: processMessageTags_def admitted_def unrendered_def rendered_def chat_of_def
        scenario_C_parse mark_and_start_def nowhere_def Let_def)
  show ?thesis
    unfolding r
    by (simp add: marked_call_does_nothing) (simp add: unrendered_def rendered_def)
qed

text \<open>
  Claim C3. The second call is made while the first waits for \<open>parseImageTags\<close>: the mark
  is not set yet, both calls are let in, and both start the jobs of the message.
\<close>

theorem second_trigger_starts_jobs:
  "admitted (rendered scenario_C) 0 \<and>
   events (overlapping_calls parse_normal (rendered scenario_C) 0) = [Started 0, Started 0] \<and>
   processingMessages (overlapping_calls parse_normal (rendered scenario_C) 0) = {0}"
  by (simp add: overlapping_calls_def admitted_def rendered_def chat_of_def scenario_C_parse
      mark_and_start_def everywhere_def Let_def)

text \<open>
  Claim C9. The first of two tags has a number as its prompt: its job is rejected before
  its \<open>try\<close>, the join is rejected with it, the mark is removed and the chat is not
  saved; the job of the second tag ends after that.
\<close>

theorem save_is_skipped:
  "events (processMessageTags parse_normal generate_castle (rendered number_and_castle) 0) =
     [Started 0, Rejected 0 0, Unmarked 0, Settled 0 1] \<and>
   processingMessages (processMessageTags parse_normal generate_castle (rendered number_and_castle) 0)
     = {}"
  by (simp add: processMessageTags_def admitted_def rendered_def chat_of_def
      number_and_castle_parse mark_and_start_def everywhere_def Let_def finish_def
      join_events_def processTag_def number_tag_def castle_tag_def generate_castle_def)

end
